theory Spec2Isabelle
  imports Main "HOL-Library.Word"
begin

section \<open>The memory pool manager\<close>

text \<open>
  A shallow embedding of the pool manager (\<^verbatim>\<open>mem_PoolsInit\<close>, \<^verbatim>\<open>mem_PoolsAlloc\<close>,
  \<^verbatim>\<open>mem_PoolsFree\<close>, \<^verbatim>\<open>mem_GetChunkSize\<close>).

  \<^item> \<^verbatim>\<open>size_t\<close> and \<^verbatim>\<open>uint8_t*\<close> are \<open>'a word\<close> for an arbitrary width \<open>'a\<close>;
    \<open>+\<close>, \<open>-\<close> and \<open>*\<close> wrap, comparisons are unsigned, \<^verbatim>\<open>NULL\<close> is \<open>0\<close>.
  \<^item> \<^verbatim>\<open>uint32_t\<close> is \<open>32 word\<close>, and so is a value of the enumeration
    \<^verbatim>\<open>mem_PoolChunkType_t\<close>; as an array index it is read with \<open>unat\<close>.
  \<^item> The global arrays \<^verbatim>\<open>mem_Pools\<close> and \<^verbatim>\<open>mem_FreeChunksNumber\<close> are functions from
    the index; the memory that holds \<^verbatim>\<open>mem_PoolState_t\<close> objects is an explicit store
    \<open>pool_mem\<close> from addresses to records, so that a pool header is reached through the
    pointer the code holds and two pointers may alias.
  \<^item> An assertion that fails, a dereference of \<^verbatim>\<open>NULL\<close>, a dereference of an address
    that holds no pool header and an array index out of range end the call with an
    \<open>error\<close>; a loop that runs forever is the result \<open>None\<close>.
  \<^item> The single-pool mechanics (\<^verbatim>\<open>mem_PoolInit\<close>, \<^verbatim>\<open>mem_PoolAllocChunk\<close>,
    \<^verbatim>\<open>mem_PoolFreeChunk\<close>), the heap (\<^verbatim>\<open>mem_HeapRecommendAllocationSize\<close>,
    \<^verbatim>\<open>mem_HeapAllocBlock\<close>, \<^verbatim>\<open>mem_HeapFreeBlock\<close>), \<^verbatim>\<open>mem_SizeToPoolChunkType\<close> and the
    constants \<^verbatim>\<open>MEM_POOL_CHUNK_TYPE__COUNT\<close>, \<^verbatim>\<open>sizeof (mem_PoolState_t)\<close>,
    \<^verbatim>\<open>sizeof (mword_t)\<close> are not part of the file: they are the fields of an
    environment \<open>E\<close> that every operation takes.
\<close>

subsection \<open>Data\<close>

datatype error = AssertionFailure | NullDereference | InvalidDereference | IndexOutOfBounds

datatype mem_HeapAllocTerm_t = MEM_HEAP_ALLOC_SHORT_TERM | MEM_HEAP_ALLOC_LONG_TERM

text \<open>
  The fields of \<^verbatim>\<open>mem_PoolState_t\<close> that the pool manager reads or writes. Whatever else
  the single-pool code keeps for a pool (its chunk size, its bitmap) is the extension
  slot \<open>'z\<close> of the record.
\<close>

record (overloaded) ('a :: len) mem_PoolState_t =
  m_pPoolStart :: "'a word"
  m_PoolSize :: "'a word"
  m_pChunks :: "'a word"
  m_ChunksNumber :: "'a word"
  m_FreeChunksNumber :: "'a word"
  m_pNextPool :: "'a word"

type_synonym ('a, 'z) pool = "('a, 'z) mem_PoolState_t_scheme"

record (overloaded) ('a :: len, 'z, 'h) mem_env =
  MEM_POOL_CHUNK_TYPE__COUNT :: nat
  sizeof_mem_PoolState_t :: "'a word"
  sizeof_mword_t :: "'a word"
  mem_SizeToPoolChunkType :: "'a word \<Rightarrow> 32 word"
  mem_HeapRecommendAllocationSize :: "'a word \<Rightarrow> 'a word"
  mem_HeapAllocBlock :: "'h \<Rightarrow> 'a word \<Rightarrow> mem_HeapAllocTerm_t \<Rightarrow> 'a word \<times> 'h"
  mem_HeapFreeBlock :: "'h \<Rightarrow> 'a word \<Rightarrow> 'h"
  mem_PoolInit :: "'a word \<Rightarrow> 'a word \<Rightarrow> 'a word \<Rightarrow> ('a, 'z) pool"
  mem_PoolAllocChunk :: "('a, 'z) pool \<Rightarrow> 'a word \<times> ('a, 'z) pool"
  mem_PoolFreeChunk :: "('a, 'z) pool \<Rightarrow> 'a word \<Rightarrow> ('a, 'z) pool"

record (overloaded) ('a :: len, 'z, 'h) mem_state =
  mem_Pools :: "nat \<Rightarrow> 'a word"
  mem_FreeChunksNumber :: "nat \<Rightarrow> 'a word"
  mem_PoolForPoolHeaders :: "('a, 'z) pool"
  mem_SpaceForPoolForPoolHeaders :: "'a word"
  pool_mem :: "'a word \<rightharpoonup> ('a, 'z) pool"
  heap :: 'h

subsection \<open>mem\_GetChunkSize\<close>

text \<open>
  \<^verbatim>\<open>uint32_t chunkTypeId = (uint32_t) chunkType;
  JERRY_ASSERT( chunkTypeId < MEM_POOL_CHUNK_TYPE__COUNT );
  return ( 1u << ( chunkTypeId + 2 ) );\<close>
  The shift is a shift of a 32-bit unsigned value, converted to \<^verbatim>\<open>size_t\<close> on return.
\<close>

definition mem_GetChunkSize :: "('a :: len, 'z, 'h) mem_env \<Rightarrow> 32 word \<Rightarrow> error + 'a word" where
  "mem_GetChunkSize E chunkType =
     (let chunkTypeId = (ucast chunkType :: 32 word) in
      if unat chunkTypeId < MEM_POOL_CHUNK_TYPE__COUNT E
      then Inr (ucast (push_bit (unat (chunkTypeId + 2)) (1 :: 32 word)))
      else Inl AssertionFailure)"

subsection \<open>mem\_PoolsInit\<close>

function mem_PoolsInit_loop ::
  "nat \<Rightarrow> nat \<Rightarrow> ('a :: len, 'z, 'h) mem_state \<Rightarrow> ('a, 'z, 'h) mem_state" where
  "mem_PoolsInit_loop i n s =
     (if i < n
      then mem_PoolsInit_loop (i + 1) n
             (s\<lparr>mem_Pools := (mem_Pools s)(i := 0),
                mem_FreeChunksNumber := (mem_FreeChunksNumber s)(i := 0)\<rparr>)
      else s)"
  by pat_completeness auto
termination
  by (relation "measure (\<lambda>(i, n, s). n - i)") auto

declare mem_PoolsInit_loop.simps [simp del]

definition mem_PoolsInit ::
  "('a :: len, 'z, 'h) mem_env \<Rightarrow> ('a, 'z, 'h) mem_state \<Rightarrow> error + ('a, 'z, 'h) mem_state" where
  "mem_PoolsInit E s =
     (let s1 = mem_PoolsInit_loop 0 (MEM_POOL_CHUNK_TYPE__COUNT E) s;
          poolSpaceSize = mem_HeapRecommendAllocationSize E
                            (4 * sizeof_mem_PoolState_t E + sizeof_mword_t E);
          (space, h) = mem_HeapAllocBlock E (heap s1) poolSpaceSize MEM_HEAP_ALLOC_LONG_TERM;
          s2 = s1\<lparr>mem_SpaceForPoolForPoolHeaders := space, heap := h\<rparr>;
          chunkType = mem_SizeToPoolChunkType E (sizeof_mem_PoolState_t E)
      in case mem_GetChunkSize E chunkType of
           Inl e \<Rightarrow> Inl e
         | Inr chunkSize \<Rightarrow>
             Inr (s2\<lparr>mem_PoolForPoolHeaders := mem_PoolInit E chunkSize space poolSpaceSize\<rparr>))"

subsection \<open>mem\_PoolsAlloc\<close>

text \<open>
  The body of \<^verbatim>\<open>if ( mem_FreeChunksNumber[ chunkType ] == 0 )\<close>. \<open>Inr (Inl _)\<close> is one of
  the two early \<^verbatim>\<open>return NULL\<close>, with the state at that point; \<open>Inr (Inr _)\<close> is the state
  with which the function goes on. \<open>chunkType\<close> is here the array index
  \<open>unat chunkType\<close>, as it is in \<open>alloc_take\<close> and \<open>free_pool\<close> below.

  \<^verbatim>\<open>mem_PoolInit( poolState, ...)\<close> and the two assignments after it store through
  \<^verbatim>\<open>poolState\<close>, a chunk of the pool of pool headers, which lies over the block
  \<^verbatim>\<open>mem_SpaceForPoolForPoolHeaders\<close>. \<^verbatim>\<open>mem_PoolsInit\<close> keeps whatever \<^verbatim>\<open>mem_HeapAllocBlock\<close>
  returned for that block and never tests it: when it is \<^verbatim>\<open>NULL\<close> the chunk is no memory of
  the program and the store is the error \<open>NullDereference\<close>.
\<close>

definition alloc_grow ::
  "('a :: len, 'z, 'h) mem_env \<Rightarrow> nat \<Rightarrow> 'a word \<Rightarrow> ('a, 'z, 'h) mem_state \<Rightarrow>
     error + (('a word \<times> ('a, 'z, 'h) mem_state) + ('a, 'z, 'h) mem_state)" where
  "alloc_grow E chunkType chunkSize s =
     (let (poolState, hp) = mem_PoolAllocChunk E (mem_PoolForPoolHeaders s);
          s1 = s\<lparr>mem_PoolForPoolHeaders := hp\<rparr>
      in if poolState = 0 then Inr (Inl (0, s1))
         else
           let poolSpaceSize = mem_HeapRecommendAllocationSize E
                                 (8 * chunkSize + sizeof_mword_t E);
               (poolSpace, h) = mem_HeapAllocBlock E (heap s1) poolSpaceSize MEM_HEAP_ALLOC_LONG_TERM;
               s2 = s1\<lparr>heap := h\<rparr>
           in if poolSpace = 0 then Inr (Inl (0, s2))
              else if mem_SpaceForPoolForPoolHeaders s2 = 0 then Inl NullDereference
              else
                let r = (mem_PoolInit E chunkSize poolSpace poolSpaceSize)
                          \<lparr>m_pNextPool := mem_Pools s2 chunkType\<rparr>
                in Inr (Inr (s2\<lparr>pool_mem := (pool_mem s2)(poolState \<mapsto> r),
                           mem_Pools := (mem_Pools s2)(chunkType := poolState),
                           mem_FreeChunksNumber := (mem_FreeChunksNumber s2)
                             (chunkType := mem_FreeChunksNumber s2 chunkType + m_FreeChunksNumber r)\<rparr>)))"

text \<open>
  \<^verbatim>\<open>while ( poolState->m_FreeChunksNumber == 0 )
  { poolState = poolState->m_pNextPool; JERRY_ASSERT( poolState != NULL ); }\<close>
  The first test reads through \<^verbatim>\<open>mem_Pools[ chunkType ]\<close> unchecked; every later one
  follows the assertion.
\<close>

partial_function (option) alloc_find ::
  "('a :: len word \<rightharpoonup> ('a, 'z) pool) \<Rightarrow> 'a word \<Rightarrow> (error + 'a word) option" where
  "alloc_find m poolState =
     (if poolState = 0 then Some (Inl NullDereference)
      else case m poolState of
             None \<Rightarrow> Some (Inl InvalidDereference)
           | Some r \<Rightarrow>
               if m_FreeChunksNumber r = 0
               then (if m_pNextPool r = 0 then Some (Inl AssertionFailure)
                     else alloc_find m (m_pNextPool r))
               else Some (Inr poolState))"

text \<open>
  The rest of \<^verbatim>\<open>mem_PoolsAlloc\<close> after the growth step: the search, the decrement of the
  aggregate counter and \<^verbatim>\<open>return mem_PoolAllocChunk( poolState)\<close>. The result also names
  the pool the chunk was taken from.
\<close>

definition alloc_take ::
  "('a :: len, 'z, 'h) mem_env \<Rightarrow> nat \<Rightarrow> ('a, 'z, 'h) mem_state \<Rightarrow>
     (error + ('a word \<times> 'a word \<times> ('a, 'z, 'h) mem_state)) option" where
  "alloc_take E chunkType s =
     (case alloc_find (pool_mem s) (mem_Pools s chunkType) of
        None \<Rightarrow> None
      | Some (Inl e) \<Rightarrow> Some (Inl e)
      | Some (Inr poolState) \<Rightarrow>
          (case pool_mem s poolState of
             None \<Rightarrow> Some (Inl InvalidDereference)
           | Some r \<Rightarrow>
               let s1 = s\<lparr>mem_FreeChunksNumber := (mem_FreeChunksNumber s)
                            (chunkType := mem_FreeChunksNumber s chunkType - 1)\<rparr>;
                   (pChunk, r') = mem_PoolAllocChunk E r
               in Some (Inr (poolState, pChunk,
                             s1\<lparr>pool_mem := (pool_mem s1)(poolState \<mapsto> r')\<rparr>))))"

definition alloc_from ::
  "('a :: len, 'z, 'h) mem_env \<Rightarrow> 32 word \<Rightarrow> ('a, 'z, 'h) mem_state \<Rightarrow>
     (error + ('a word \<times> 'a word \<times> ('a, 'z, 'h) mem_state)) option" where
  "alloc_from E chunkType s =
     (case mem_GetChunkSize E chunkType of
        Inl e \<Rightarrow> Some (Inl e)
      | Inr chunkSize \<Rightarrow>
          (if mem_FreeChunksNumber s (unat chunkType) = 0
           then (case alloc_grow E (unat chunkType) chunkSize s of
                   Inl e \<Rightarrow> Some (Inl e)
                 | Inr (Inl (p, s')) \<Rightarrow> Some (Inr (0, p, s'))
                 | Inr (Inr s1) \<Rightarrow> alloc_take E (unat chunkType) s1)
           else alloc_take E (unat chunkType) s))"

text \<open>
  \<^verbatim>\<open>mem_PoolsAlloc\<close>: the returned pointer (\<open>0\<close> is \<^verbatim>\<open>NULL\<close>) and the state after the call.
\<close>

definition mem_PoolsAlloc ::
  "('a :: len, 'z, 'h) mem_env \<Rightarrow> 32 word \<Rightarrow> ('a, 'z, 'h) mem_state \<Rightarrow>
     (error + ('a word \<times> ('a, 'z, 'h) mem_state)) option" where
  "mem_PoolsAlloc E chunkType s =
     (case alloc_from E chunkType s of
        None \<Rightarrow> None
      | Some (Inl e) \<Rightarrow> Some (Inl e)
      | Some (Inr (poolState, pChunk, s')) \<Rightarrow> Some (Inr (pChunk, s')))"

subsection \<open>mem\_PoolsFree\<close>

text \<open>
  The test of the search loop:
  \<^verbatim>\<open>pChunk >= poolState->m_pChunks
  && pChunk <= poolState->m_pPoolStart + poolState->m_PoolSize\<close>
\<close>

definition pool_contains :: "('a :: len, 'z) pool \<Rightarrow> 'a word \<Rightarrow> bool" where
  "pool_contains r pChunk \<longleftrightarrow>
     m_pChunks r \<le> pChunk \<and> pChunk \<le> m_pPoolStart r + m_PoolSize r"

text \<open>
  \<^verbatim>\<open>while ( !( ... ) )
  { prevPoolState = poolState; poolState = poolState->m_pNextPool;
    JERRY_ASSERT( poolState != NULL ); }\<close>
\<close>

partial_function (option) free_find ::
  "('a :: len word \<rightharpoonup> ('a, 'z) pool) \<Rightarrow> 'a word \<Rightarrow> 'a word \<Rightarrow> 'a word \<Rightarrow>
     (error + 'a word \<times> 'a word) option" where
  "free_find m pChunk poolState prevPoolState =
     (if poolState = 0 then Some (Inl NullDereference)
      else case m poolState of
             None \<Rightarrow> Some (Inl InvalidDereference)
           | Some r \<Rightarrow>
               if \<not> pool_contains r pChunk
               then (if m_pNextPool r = 0 then Some (Inl AssertionFailure)
                     else free_find m pChunk (m_pNextPool r) poolState)
               else Some (Inr (poolState, prevPoolState)))"

text \<open>
  The body of \<^verbatim>\<open>if ( poolState->m_FreeChunksNumber == poolState->m_ChunksNumber )\<close>,
  for the pool \<open>r\<close> found at \<open>poolState\<close>.
\<close>

definition free_pool ::
  "('a :: len, 'z, 'h) mem_env \<Rightarrow> nat \<Rightarrow> 'a word \<Rightarrow> 'a word \<Rightarrow> ('a, 'z) pool \<Rightarrow>
     ('a, 'z, 'h) mem_state \<Rightarrow> error + ('a, 'z, 'h) mem_state" where
  "free_pool E chunkType poolState prevPoolState r s =
     (case (if prevPoolState \<noteq> 0
            then (case pool_mem s prevPoolState of
                    None \<Rightarrow> Inl InvalidDereference
                  | Some rp \<Rightarrow>
                      Inr (s\<lparr>pool_mem := (pool_mem s)
                               (prevPoolState \<mapsto> rp\<lparr>m_pNextPool := m_pNextPool r\<rparr>)\<rparr>))
            else Inr (s\<lparr>mem_Pools := (mem_Pools s)(chunkType := m_pNextPool r)\<rparr>)) of
        Inl e \<Rightarrow> Inl e
      | Inr s1 \<Rightarrow>
          Inr (s1\<lparr>mem_FreeChunksNumber := (mem_FreeChunksNumber s1)
                     (chunkType := mem_FreeChunksNumber s1 chunkType - m_ChunksNumber r),
                   heap := mem_HeapFreeBlock E (heap s1) (m_pPoolStart r),
                   mem_PoolForPoolHeaders :=
                     mem_PoolFreeChunk E (mem_PoolForPoolHeaders s1) poolState\<rparr>))"

text \<open>
  \<^verbatim>\<open>mem_PoolsFree\<close>. The code indexes \<^verbatim>\<open>mem_Pools\<close> with \<^verbatim>\<open>chunkType\<close> unchecked; an
  index outside the array is the error \<open>IndexOutOfBounds\<close> here.
\<close>

definition mem_PoolsFree ::
  "('a :: len, 'z, 'h) mem_env \<Rightarrow> 32 word \<Rightarrow> 'a word \<Rightarrow> ('a, 'z, 'h) mem_state \<Rightarrow>
     (error + ('a, 'z, 'h) mem_state) option" where
  "mem_PoolsFree E chunkType pChunk s =
     (if \<not> unat chunkType < MEM_POOL_CHUNK_TYPE__COUNT E then Some (Inl IndexOutOfBounds)
      else case free_find (pool_mem s) pChunk (mem_Pools s (unat chunkType)) 0 of
        None \<Rightarrow> None
      | Some (Inl e) \<Rightarrow> Some (Inl e)
      | Some (Inr (poolState, prevPoolState)) \<Rightarrow>
          (case pool_mem s poolState of
             None \<Rightarrow> Some (Inl InvalidDereference)
           | Some r \<Rightarrow>
               let r' = mem_PoolFreeChunk E r pChunk;
                   s1 = s\<lparr>pool_mem := (pool_mem s)(poolState \<mapsto> r'),
                          mem_FreeChunksNumber := (mem_FreeChunksNumber s)
                            (unat chunkType := mem_FreeChunksNumber s (unat chunkType) + 1)\<rparr>
               in if m_FreeChunksNumber r' = m_ChunksNumber r'
                  then Some (free_pool E (unat chunkType) poolState prevPoolState r' s1)
                  else Some (Inr s1)))"

subsection \<open>Chains of pool headers\<close>

text \<open>
  \<open>seg m h as t\<close>: following \<^verbatim>\<open>m_pNextPool\<close> from \<open>h\<close> through the store \<open>m\<close> visits
  exactly the headers at the addresses \<open>as\<close>, none of them \<^verbatim>\<open>NULL\<close>, and arrives at \<open>t\<close>.
  A chain is a segment that ends in \<^verbatim>\<open>NULL\<close>.
\<close>

fun seg :: "('a :: len word \<rightharpoonup> ('a, 'z) pool) \<Rightarrow> 'a word \<Rightarrow> 'a word list \<Rightarrow> 'a word \<Rightarrow> bool" where
  "seg m h [] t \<longleftrightarrow> h = t"
| "seg m h (a # as) t \<longleftrightarrow>
     h = a \<and> a \<noteq> 0 \<and> (case m a of None \<Rightarrow> False | Some r \<Rightarrow> seg m (m_pNextPool r) as t)"

text \<open>
  The addresses of the chain that starts at \<open>h\<close>, computed by following the links:
  \<open>None\<close> when a link leaves the store or the links run in a circle.
\<close>

partial_function (option) pool_chain ::
  "('a :: len word \<rightharpoonup> ('a, 'z) pool) \<Rightarrow> 'a word \<Rightarrow> 'a word list option" where
  "pool_chain m h =
     (if h = 0 then Some []
      else case m h of
             None \<Rightarrow> None
           | Some r \<Rightarrow> Option.bind (pool_chain m (m_pNextPool r)) (\<lambda>as. Some (h # as)))"

definition pool_free :: "('a :: len word \<rightharpoonup> ('a, 'z) pool) \<Rightarrow> 'a word \<Rightarrow> 'a word" where
  "pool_free m a = (case m a of None \<Rightarrow> 0 | Some r \<Rightarrow> m_FreeChunksNumber r)"

text \<open>
  The sum, in \<^verbatim>\<open>size_t\<close> arithmetic, of \<^verbatim>\<open>m_FreeChunksNumber\<close> over the chain from \<open>h\<close>,
  and the same sum over the natural numbers.
\<close>

definition chain_free_sum :: "('a :: len word \<rightharpoonup> ('a, 'z) pool) \<Rightarrow> 'a word \<Rightarrow> 'a word option" where
  "chain_free_sum m h = map_option (\<lambda>as. sum_list (map (pool_free m) as)) (pool_chain m h)"

definition chain_free_total :: "('a :: len word \<rightharpoonup> ('a, 'z) pool) \<Rightarrow> 'a word \<Rightarrow> nat option" where
  "chain_free_total m h =
     map_option (\<lambda>as. sum_list (map (\<lambda>a. unat (pool_free m a)) as)) (pool_chain m h)"

text \<open>
  What the two search loops compute on a chain \<open>as\<close>: the first pool with a free chunk,
  and the first pool whose range test accepts \<open>p\<close> together with its predecessor
  (\<open>prev\<close> for the first pool of the list).
\<close>

definition first_free :: "('a :: len word \<rightharpoonup> ('a, 'z) pool) \<Rightarrow> 'a word list \<Rightarrow> 'a word option" where
  "first_free m as = List.find (\<lambda>a. pool_free m a \<noteq> 0) as"

fun first_owner ::
  "('a :: len word \<rightharpoonup> ('a, 'z) pool) \<Rightarrow> 'a word \<Rightarrow> 'a word \<Rightarrow> 'a word list \<Rightarrow>
     ('a word \<times> 'a word) option" where
  "first_owner m p prev [] = None"
| "first_owner m p prev (a # as) =
     (case m a of
        None \<Rightarrow> None
      | Some r \<Rightarrow> if pool_contains r p then Some (a, prev) else first_owner m p a as)"

subsection \<open>The contract of the single-pool mechanics\<close>

text \<open>
  What the pool manager relies on from \<^verbatim>\<open>mem_PoolInit\<close>, \<^verbatim>\<open>mem_PoolAllocChunk\<close> and
  \<^verbatim>\<open>mem_PoolFreeChunk\<close>, for a representation invariant \<open>pinv\<close> of a pool and the set
  \<open>used r\<close> of the chunks of pool \<open>r\<close> that are handed out:
  \<^item> a pool is initialised over the block it is given, with every chunk free;
  \<^item> allocation returns \<^verbatim>\<open>NULL\<close> from a pool without a free chunk, and otherwise a chunk
    that was not handed out, one free chunk less;
  \<^item> releasing a chunk that is handed out gives one free chunk more;
  \<^item> neither touches the block, the chunk count or the link of the pool, and the link
    means nothing to them.
\<close>

definition same_pool :: "('a :: len, 'z) pool \<Rightarrow> ('a, 'z) pool \<Rightarrow> bool" where
  "same_pool r r' \<longleftrightarrow>
     m_pPoolStart r' = m_pPoolStart r \<and> m_PoolSize r' = m_PoolSize r \<and>
     m_pChunks r' = m_pChunks r \<and> m_ChunksNumber r' = m_ChunksNumber r \<and>
     m_pNextPool r' = m_pNextPool r"

definition init_contract ::
  "('a :: len, 'z, 'h) mem_env \<Rightarrow> (('a, 'z) pool \<Rightarrow> bool) \<Rightarrow> (('a, 'z) pool \<Rightarrow> 'a word set) \<Rightarrow> bool" where
  "init_contract E pinv used \<longleftrightarrow>
     (\<forall>cs ps sz. pinv (mem_PoolInit E cs ps sz) \<and> used (mem_PoolInit E cs ps sz) = {} \<and>
        m_FreeChunksNumber (mem_PoolInit E cs ps sz) = m_ChunksNumber (mem_PoolInit E cs ps sz) \<and>
        m_pPoolStart (mem_PoolInit E cs ps sz) = ps \<and> m_PoolSize (mem_PoolInit E cs ps sz) = sz)"

definition link_contract ::
  "(('a :: len, 'z) pool \<Rightarrow> bool) \<Rightarrow> (('a, 'z) pool \<Rightarrow> 'a word set) \<Rightarrow> bool" where
  "link_contract pinv used \<longleftrightarrow>
     (\<forall>r x. pinv (r\<lparr>m_pNextPool := x\<rparr>) = pinv r \<and> used (r\<lparr>m_pNextPool := x\<rparr>) = used r)"

definition alloc_contract ::
  "('a :: len, 'z, 'h) mem_env \<Rightarrow> (('a, 'z) pool \<Rightarrow> bool) \<Rightarrow> (('a, 'z) pool \<Rightarrow> 'a word set) \<Rightarrow> bool" where
  "alloc_contract E pinv used \<longleftrightarrow>
     (\<forall>r p r'. pinv r \<longrightarrow> mem_PoolAllocChunk E r = (p, r') \<longrightarrow>
        pinv r' \<and> same_pool r r' \<and>
        (m_FreeChunksNumber r = 0 \<longrightarrow> p = 0 \<and> used r' = used r) \<and>
        (m_FreeChunksNumber r \<noteq> 0 \<longrightarrow>
           p \<noteq> 0 \<and> p \<notin> used r \<and> used r' = insert p (used r) \<and>
           m_FreeChunksNumber r' = m_FreeChunksNumber r - 1))"

definition free_contract ::
  "('a :: len, 'z, 'h) mem_env \<Rightarrow> (('a, 'z) pool \<Rightarrow> bool) \<Rightarrow> (('a, 'z) pool \<Rightarrow> 'a word set) \<Rightarrow> bool" where
  "free_contract E pinv used \<longleftrightarrow>
     (\<forall>r p. pinv r \<longrightarrow> p \<in> used r \<longrightarrow>
        unat (m_FreeChunksNumber r) < unat (m_ChunksNumber r) \<and>
        pinv (mem_PoolFreeChunk E r p) \<and> same_pool r (mem_PoolFreeChunk E r p) \<and>
        used (mem_PoolFreeChunk E r p) = used r - {p} \<and>
        m_FreeChunksNumber (mem_PoolFreeChunk E r p) = m_FreeChunksNumber r + 1)"

definition pool_contract ::
  "('a :: len, 'z, 'h) mem_env \<Rightarrow> (('a, 'z) pool \<Rightarrow> bool) \<Rightarrow> (('a, 'z) pool \<Rightarrow> 'a word set) \<Rightarrow> bool" where
  "pool_contract E pinv used \<longleftrightarrow>
     init_contract E pinv used \<and> link_contract pinv used \<and>
     alloc_contract E pinv used \<and> free_contract E pinv used"

subsection \<open>Reachable states\<close>

text \<open>
  The caller's obligation for \<^verbatim>\<open>mem_PoolsFree\<close>: the pool that the search selects for
  \<open>p\<close> has handed \<open>p\<close> out.
\<close>

definition free_ok ::
  "(('a :: len, 'z) pool \<Rightarrow> 'a word set) \<Rightarrow> nat \<Rightarrow> 'a word \<Rightarrow> ('a, 'z, 'h) mem_state \<Rightarrow> bool" where
  "free_ok used c p s \<longleftrightarrow>
     (case free_find (pool_mem s) p (mem_Pools s c) 0 of
        Some (Inr (a, prev)) \<Rightarrow>
          (case pool_mem s a of None \<Rightarrow> False | Some r \<Rightarrow> p \<in> used r)
      | _ \<Rightarrow> False)"

text \<open>
  The states of a run: \<^verbatim>\<open>mem_PoolsInit\<close> from any state, then calls of
  \<^verbatim>\<open>mem_PoolsAlloc\<close> and \<^verbatim>\<open>mem_PoolsFree\<close> that return.
\<close>

inductive reachable ::
  "('a :: len, 'z, 'h) mem_env \<Rightarrow> (('a, 'z) pool \<Rightarrow> 'a word set) \<Rightarrow> ('a, 'z, 'h) mem_state \<Rightarrow> bool"
  for E used where
  reach_init: "mem_PoolsInit E s0 = Inr s \<Longrightarrow> reachable E used s"
| reach_alloc: "reachable E used s \<Longrightarrow> mem_PoolsAlloc E c s = Some (Inr (p, s')) \<Longrightarrow>
     reachable E used s'"
| reach_free: "reachable E used s \<Longrightarrow> free_ok used (unat c) p s \<Longrightarrow>
     mem_PoolsFree E c p s = Some (Inr s') \<Longrightarrow> reachable E used s'"

text \<open>
  The invariant of the reachable states. A pool is idle when it has chunks and all of
  them are free; \<^verbatim>\<open>mem_PoolsFree\<close> gives such a pool back at once, so no pool of a chain
  is idle, but for the new head between the growth step and the allocation from it (the
  addresses in \<open>X\<close> are exempt). For a size class \<open>c\<close> with chain \<open>as\<close>: the headers of
  the chain are chunks handed out by the pool of pool headers, each is a sound pool with
  no more free chunks than chunks, and the aggregate counter is the sum of their free
  counts. The chains of two size classes share no header.
\<close>

definition idle_pool :: "('a :: len, 'z) pool \<Rightarrow> bool" where
  "idle_pool r \<longleftrightarrow> m_FreeChunksNumber r = m_ChunksNumber r \<and> m_ChunksNumber r \<noteq> 0"

definition node_inv ::
  "(('a :: len, 'z) pool \<Rightarrow> bool) \<Rightarrow> 'a word set \<Rightarrow> 'a word \<Rightarrow> ('a, 'z) pool \<Rightarrow> bool" where
  "node_inv pinv X a r \<longleftrightarrow>
     pinv r \<and> unat (m_FreeChunksNumber r) \<le> unat (m_ChunksNumber r) \<and>
     (a \<notin> X \<longrightarrow> \<not> idle_pool r)"

definition class_inv ::
  "(('a :: len, 'z) pool \<Rightarrow> bool) \<Rightarrow> (('a, 'z) pool \<Rightarrow> 'a word set) \<Rightarrow> 'a word set \<Rightarrow>
     ('a, 'z, 'h) mem_state \<Rightarrow> nat \<Rightarrow> 'a word list \<Rightarrow> bool" where
  "class_inv pinv used X s c as \<longleftrightarrow>
     seg (pool_mem s) (mem_Pools s c) as 0 \<and>
     set as \<subseteq> used (mem_PoolForPoolHeaders s) \<and>
     (\<forall>a\<in>set as. \<forall>r. pool_mem s a = Some r \<longrightarrow> node_inv pinv X a r) \<and>
     mem_FreeChunksNumber s c = sum_list (map (pool_free (pool_mem s)) as)"

definition base_inv ::
  "('a :: len, 'z, 'h) mem_env \<Rightarrow> (('a, 'z) pool \<Rightarrow> bool) \<Rightarrow> (('a, 'z) pool \<Rightarrow> 'a word set) \<Rightarrow>
     'a word set \<Rightarrow> ('a, 'z, 'h) mem_state \<Rightarrow> bool" where
  "base_inv E pinv used X s \<longleftrightarrow>
     pinv (mem_PoolForPoolHeaders s) \<and>
     (\<forall>c < MEM_POOL_CHUNK_TYPE__COUNT E. \<exists>as. class_inv pinv used X s c as) \<and>
     (\<forall>c < MEM_POOL_CHUNK_TYPE__COUNT E. \<forall>c' < MEM_POOL_CHUNK_TYPE__COUNT E. c \<noteq> c' \<longrightarrow>
        (\<forall>as bs. seg (pool_mem s) (mem_Pools s c) as 0 \<longrightarrow>
                 seg (pool_mem s) (mem_Pools s c') bs 0 \<longrightarrow> set as \<inter> set bs = {}))"

definition pools_inv ::
  "('a :: len, 'z, 'h) mem_env \<Rightarrow> (('a, 'z) pool \<Rightarrow> bool) \<Rightarrow> (('a, 'z) pool \<Rightarrow> 'a word set) \<Rightarrow>
     ('a, 'z, 'h) mem_state \<Rightarrow> bool" where
  "pools_inv E pinv used s \<longleftrightarrow> base_inv E pinv used {} s"

text \<open>What a call for another size class leaves alone in the size class \<open>i\<close>.\<close>

definition untouched :: "nat \<Rightarrow> ('a :: len, 'z, 'h) mem_state \<Rightarrow> ('a, 'z, 'h) mem_state \<Rightarrow> bool" where
  "untouched i s s' \<longleftrightarrow>
     mem_Pools s' i = mem_Pools s i \<and>
     mem_FreeChunksNumber s' i = mem_FreeChunksNumber s i \<and>
     mem_SpaceForPoolForPoolHeaders s' = mem_SpaceForPoolForPoolHeaders s \<and>
     (\<exists>as. pool_chain (pool_mem s) (mem_Pools s i) = Some as \<and>
           pool_chain (pool_mem s') (mem_Pools s' i) = Some as \<and>
           (\<forall>a\<in>set as. pool_mem s' a = pool_mem s a))"

subsection \<open>Blocks and the chunks in them\<close>

text \<open>
  What the search of \<^verbatim>\<open>mem_PoolsFree\<close> relies on from the heap and from the layout of a
  pool, to arrive at the pool a chunk was taken from.

  The heap: \<open>inside h b z\<close> says that the block of \<open>z\<close> bytes at \<open>b\<close> is held by a
  client of the heap \<open>h\<close>. A block that \<^verbatim>\<open>mem_HeapAllocBlock\<close> supplies shares no byte
  with a block held before, and is held afterwards; every block stays held until
  \<^verbatim>\<open>mem_HeapFreeBlock\<close> is called for its address.
\<close>

definition block_apart :: "'a :: len word \<Rightarrow> 'a word \<Rightarrow> 'a word \<Rightarrow> 'a word \<Rightarrow> bool" where
  "block_apart b z b' z' \<longleftrightarrow> unat b + unat z \<le> unat b' \<or> unat b' + unat z' \<le> unat b"

definition heap_contract ::
  "('a :: len, 'z, 'h) mem_env \<Rightarrow> ('h \<Rightarrow> 'a word \<Rightarrow> 'a word \<Rightarrow> bool) \<Rightarrow> bool" where
  "heap_contract E inside \<longleftrightarrow>
     (\<forall>h sz t blk h'. mem_HeapAllocBlock E h sz t = (blk, h') \<longrightarrow>
        (blk \<noteq> 0 \<longrightarrow> inside h' blk sz) \<and>
        (\<forall>b z. inside h b z \<longrightarrow> inside h' b z \<and> (blk \<noteq> 0 \<longrightarrow> block_apart blk sz b z))) \<and>
     (\<forall>h blk b z. inside h b z \<longrightarrow> b \<noteq> blk \<longrightarrow> inside (mem_HeapFreeBlock E h blk) b z)"

text \<open>
  The pool: its block does not wrap around the address space, and its chunks begin
  after the first byte of the block (the bookkeeping of the pool comes first) and not
  after its end. This holds of the pool that the growth step initialises over the block
  the heap supplied; and the chunks such a pool has handed out lie in its block, from
  \<^verbatim>\<open>m_pChunks\<close> on.
\<close>

definition block_ok :: "('a :: len, 'z) pool \<Rightarrow> bool" where
  "block_ok r \<longleftrightarrow>
     unat (m_pPoolStart r) < unat (m_pChunks r) \<and>
     unat (m_pChunks r) \<le> unat (m_pPoolStart r) + unat (m_PoolSize r) \<and>
     unat (m_pPoolStart r) + unat (m_PoolSize r) < 2 ^ LENGTH('a)"

definition layout_contract ::
  "('a :: len, 'z, 'h) mem_env \<Rightarrow> (('a, 'z) pool \<Rightarrow> bool) \<Rightarrow> (('a, 'z) pool \<Rightarrow> 'a word set) \<Rightarrow> bool" where
  "layout_contract E pinv used \<longleftrightarrow>
     (\<forall>c cs h t blk h'.
        mem_GetChunkSize E c = Inr cs \<longrightarrow>
        mem_HeapAllocBlock E h (mem_HeapRecommendAllocationSize E (8 * cs + sizeof_mword_t E)) t
          = (blk, h') \<longrightarrow>
        blk \<noteq> 0 \<longrightarrow>
        block_ok (mem_PoolInit E cs blk
                    (mem_HeapRecommendAllocationSize E (8 * cs + sizeof_mword_t E)))) \<and>
     (\<forall>r p. pinv r \<longrightarrow> block_ok r \<longrightarrow> p \<in> used r \<longrightarrow>
        unat (m_pChunks r) \<le> unat p \<and> unat p < unat (m_pPoolStart r) + unat (m_PoolSize r))"

text \<open>
  The pool headers of all chains, and the invariant of the reachable states that
  follows from the two contracts: every pool of a chain has a sound block that it holds
  from the heap, and the blocks of two pools share no byte.
\<close>

definition hdrs :: "('a :: len, 'z, 'h) mem_env \<Rightarrow> ('a, 'z, 'h) mem_state \<Rightarrow> 'a word set" where
  "hdrs E s =
     {a. \<exists>c < MEM_POOL_CHUNK_TYPE__COUNT E. \<exists>as.
           seg (pool_mem s) (mem_Pools s c) as 0 \<and> a \<in> set as}"

definition blocks_inv ::
  "('a :: len, 'z, 'h) mem_env \<Rightarrow> ('h \<Rightarrow> 'a word \<Rightarrow> 'a word \<Rightarrow> bool) \<Rightarrow>
     ('a, 'z, 'h) mem_state \<Rightarrow> bool" where
  "blocks_inv E inside s \<longleftrightarrow>
     (\<forall>a \<in> hdrs E s. \<forall>r. pool_mem s a = Some r \<longrightarrow>
        block_ok r \<and> inside (heap s) (m_pPoolStart r) (m_PoolSize r)) \<and>
     (\<forall>a \<in> hdrs E s. \<forall>b \<in> hdrs E s. \<forall>ra rb.
        a \<noteq> b \<longrightarrow> pool_mem s a = Some ra \<longrightarrow> pool_mem s b = Some rb \<longrightarrow>
        block_apart (m_pPoolStart ra) (m_PoolSize ra) (m_pPoolStart rb) (m_PoolSize rb))"

text \<open>
  A step from \<open>s\<close> to \<open>s'\<close> that adds no pool to a chain and leaves the block of every
  pool as it was.
\<close>

definition same_block :: "('a :: len, 'z) pool \<Rightarrow> ('a, 'z) pool \<Rightarrow> bool" where
  "same_block r r' \<longleftrightarrow>
     m_pPoolStart r' = m_pPoolStart r \<and> m_PoolSize r' = m_PoolSize r \<and>
     m_pChunks r' = m_pChunks r"

definition keeps_blocks ::
  "('a :: len, 'z, 'h) mem_env \<Rightarrow> ('a, 'z, 'h) mem_state \<Rightarrow> ('a, 'z, 'h) mem_state \<Rightarrow> bool" where
  "keeps_blocks E s s' \<longleftrightarrow>
     hdrs E s' \<subseteq> hdrs E s \<and>
     (\<forall>b \<in> hdrs E s'. \<forall>r'. pool_mem s' b = Some r' \<longrightarrow>
        (\<exists>r. pool_mem s b = Some r \<and> same_block r r'))"

subsection \<open>A concrete heap and concrete single-pool mechanics\<close>

text \<open>
  Modelled from the spec: the code of the heap (\<^verbatim>\<open>mem-heap\<close>) and of the single pool
  (\<^verbatim>\<open>mem-pool\<close>) is missing, and so are \<^verbatim>\<open>mem_SizeToPoolChunkType\<close> and the constants.
  The instance below follows the interfaces the spec gives for them, on a 32-bit
  target, and serves to run the pool manager on concrete states:
  \<^item> a pool ``tracks which chunks are free/used and can allocate or release exactly one
    chunk'': it keeps the list of its free chunks and the list of the chunks it has
    handed out, after one word of bookkeeping at the start of its block;
  \<^item> the heap ``supplies byte ranges of at least a requested size'' from a fixed area,
    and \<^verbatim>\<open>NULL\<close> when the area is used up; it recommends the size it is asked for;
  \<^item> there are four size classes (4, 8, 16 and 32 bytes), a pool header takes 32 bytes
    and a word 4 bytes.
\<close>

type_synonym chunk_lists = "32 word list \<times> 32 word list"

type_synonym heap_area = "32 word \<times> 32 word"

definition simple_PoolInit :: "32 word \<Rightarrow> 32 word \<Rightarrow> 32 word \<Rightarrow> (32, chunk_lists) pool" where
  "simple_PoolInit chunkSize poolStart poolSize =
     (let n = (if chunkSize = 0 \<or> poolSize < 4 then 0 else unat ((poolSize - 4) div chunkSize));
          cs = remdups (filter (\<lambda>p. p \<noteq> 0)
                 (map (\<lambda>i. poolStart + 4 + of_nat i * chunkSize) [0..<n]))
      in \<lparr>m_pPoolStart = poolStart, m_PoolSize = poolSize, m_pChunks = poolStart + 4,
          m_ChunksNumber = of_nat (length cs), m_FreeChunksNumber = of_nat (length cs),
          m_pNextPool = 0, \<dots> = (cs, [])\<rparr>)"

definition simple_PoolAllocChunk ::
  "(32, chunk_lists) pool \<Rightarrow> 32 word \<times> (32, chunk_lists) pool" where
  "simple_PoolAllocChunk r =
     (case mem_PoolState_t.more r of
        ([], us) \<Rightarrow> (0, r)
      | (p # fs, us) \<Rightarrow>
          (p, r\<lparr>m_FreeChunksNumber := m_FreeChunksNumber r - 1,
                mem_PoolState_t.more := (fs, p # us)\<rparr>))"

definition simple_PoolFreeChunk ::
  "(32, chunk_lists) pool \<Rightarrow> 32 word \<Rightarrow> (32, chunk_lists) pool" where
  "simple_PoolFreeChunk r p =
     (case mem_PoolState_t.more r of
        (fs, us) \<Rightarrow>
          r\<lparr>m_FreeChunksNumber := m_FreeChunksNumber r + 1,
            mem_PoolState_t.more := (p # fs, removeAll p us)\<rparr>)"

definition simple_HeapAllocBlock ::
  "heap_area \<Rightarrow> 32 word \<Rightarrow> mem_HeapAllocTerm_t \<Rightarrow> 32 word \<times> heap_area" where
  "simple_HeapAllocBlock h sz t =
     (case h of
        (brk, lim) \<Rightarrow> if unat brk + unat sz \<le> unat lim then (brk, (brk + sz, lim)) else (0, h))"

definition simple_SizeToPoolChunkType :: "32 word \<Rightarrow> 32 word" where
  "simple_SizeToPoolChunkType sz =
     (if sz \<le> 4 then 0 else if sz \<le> 8 then 1 else if sz \<le> 16 then 2
      else if sz \<le> 32 then 3 else 4)"

definition simple_env :: "(32, chunk_lists, heap_area) mem_env" where
  "simple_env =
     \<lparr>MEM_POOL_CHUNK_TYPE__COUNT = 4,
      sizeof_mem_PoolState_t = 32,
      sizeof_mword_t = 4,
      mem_SizeToPoolChunkType = simple_SizeToPoolChunkType,
      mem_HeapRecommendAllocationSize = (\<lambda>sz. sz),
      mem_HeapAllocBlock = simple_HeapAllocBlock,
      mem_HeapFreeBlock = (\<lambda>h p. h),
      mem_PoolInit = simple_PoolInit,
      mem_PoolAllocChunk = simple_PoolAllocChunk,
      mem_PoolFreeChunk = simple_PoolFreeChunk\<rparr>"

text \<open>The chunks a pool of the instance has handed out, and when such a pool is sound.\<close>

definition simple_used :: "(32, chunk_lists) pool \<Rightarrow> 32 word set" where
  "simple_used r = set (snd (mem_PoolState_t.more r))"

definition simple_pinv :: "(32, chunk_lists) pool \<Rightarrow> bool" where
  "simple_pinv r \<longleftrightarrow>
     (case mem_PoolState_t.more r of
        (fs, us) \<Rightarrow>
          distinct (fs @ us) \<and> 0 \<notin> set (fs @ us) \<and> length (fs @ us) < 2 ^ 32 \<and>
          m_FreeChunksNumber r = of_nat (length fs) \<and>
          m_ChunksNumber r = of_nat (length (fs @ us)))"

text \<open>
  Where the chunks of a pool of the instance lie, and which blocks the heap of the
  instance has given out: those below its break.
\<close>

definition simple_laid :: "(32, chunk_lists) pool \<Rightarrow> bool" where
  "simple_laid r \<longleftrightarrow>
     simple_pinv r \<and>
     (block_ok r \<longrightarrow>
        (\<forall>p \<in> set (fst (mem_PoolState_t.more r) @ snd (mem_PoolState_t.more r)).
           unat (m_pChunks r) \<le> unat p \<and> unat p < unat (m_pPoolStart r) + unat (m_PoolSize r)))"

definition simple_inside :: "heap_area \<Rightarrow> 32 word \<Rightarrow> 32 word \<Rightarrow> bool" where
  "simple_inside h b z \<longleftrightarrow> unat b + unat z \<le> unat (fst h)"

text \<open>
  The state before \<^verbatim>\<open>mem_PoolsInit\<close>: the globals are zero, no pool header has been
  written, and the heap area is \<open>brk\<close> up to \<open>lim\<close>.
\<close>

definition start_state :: "32 word \<Rightarrow> 32 word \<Rightarrow> (32, chunk_lists, heap_area) mem_state" where
  "start_state brk lim =
     \<lparr>mem_Pools = (\<lambda>_. 0), mem_FreeChunksNumber = (\<lambda>_. 0),
      mem_PoolForPoolHeaders =
        \<lparr>m_pPoolStart = 0, m_PoolSize = 0, m_pChunks = 0, m_ChunksNumber = 0,
         m_FreeChunksNumber = 0, m_pNextPool = 0, \<dots> = ([], [])\<rparr>,
      mem_SpaceForPoolForPoolHeaders = 0, pool_mem = Map.empty, heap = (brk, lim)\<rparr>"

text \<open>
  Two states of a run of the instance with the heap area \<open>0x1000\<close> to \<open>0x2000\<close>: after
  \<^verbatim>\<open>mem_PoolsInit\<close>, and after one \<^verbatim>\<open>mem_PoolsAlloc\<close> for size class 0 that follows.
\<close>

definition after_init :: "(32, chunk_lists, heap_area) mem_state" where
  "after_init =
     \<lparr>mem_Pools = (\<lambda>_. 0), mem_FreeChunksNumber = (\<lambda>_. 0),
      mem_PoolForPoolHeaders =
        \<lparr>m_pPoolStart = 0x1000, m_PoolSize = 132, m_pChunks = 0x1004, m_ChunksNumber = 4,
         m_FreeChunksNumber = 4, m_pNextPool = 0, \<dots> = ([0x1004, 0x1024, 0x1044, 0x1064], [])\<rparr>,
      mem_SpaceForPoolForPoolHeaders = 0x1000, pool_mem = Map.empty, heap = (0x1084, 0x2000)\<rparr>"

definition after_alloc :: "(32, chunk_lists, heap_area) mem_state" where
  "after_alloc =
     \<lparr>mem_Pools = (\<lambda>_. 0)(0 := 0x1004), mem_FreeChunksNumber = (\<lambda>_. 0)(0 := 7),
      mem_PoolForPoolHeaders =
        \<lparr>m_pPoolStart = 0x1000, m_PoolSize = 132, m_pChunks = 0x1004, m_ChunksNumber = 4,
         m_FreeChunksNumber = 3, m_pNextPool = 0, \<dots> = ([0x1024, 0x1044, 0x1064], [0x1004])\<rparr>,
      mem_SpaceForPoolForPoolHeaders = 0x1000,
      pool_mem = [0x1004 \<mapsto>
        \<lparr>m_pPoolStart = 0x1084, m_PoolSize = 36, m_pChunks = 0x1088, m_ChunksNumber = 8,
         m_FreeChunksNumber = 7, m_pNextPool = 0,
         \<dots> = ([0x108C, 0x1090, 0x1094, 0x1098, 0x109C, 0x10A0, 0x10A4], [0x1088])\<rparr>],
      heap = (0x10A8, 0x2000)\<rparr>"

text \<open>
  Further states of the instance: after a second \<^verbatim>\<open>mem_PoolsAlloc\<close> for size class 0;
  after \<^verbatim>\<open>mem_PoolsFree\<close> of the first chunk right after the first allocation (the pool
  header at \<open>0x1004\<close> is stale then); and after \<^verbatim>\<open>mem_PoolsInit\<close> on a heap area that
  ends at \<open>0x1084\<close> and has no room beyond the block of the pool of pool headers.
\<close>

definition after_second :: "(32, chunk_lists, heap_area) mem_state" where
  "after_second =
     \<lparr>mem_Pools = (\<lambda>_. 0)(0 := 0x1004), mem_FreeChunksNumber = (\<lambda>_. 0)(0 := 6),
      mem_PoolForPoolHeaders =
        \<lparr>m_pPoolStart = 0x1000, m_PoolSize = 132, m_pChunks = 0x1004, m_ChunksNumber = 4,
         m_FreeChunksNumber = 3, m_pNextPool = 0, \<dots> = ([0x1024, 0x1044, 0x1064], [0x1004])\<rparr>,
      mem_SpaceForPoolForPoolHeaders = 0x1000,
      pool_mem = [0x1004 \<mapsto>
        \<lparr>m_pPoolStart = 0x1084, m_PoolSize = 36, m_pChunks = 0x1088, m_ChunksNumber = 8,
         m_FreeChunksNumber = 6, m_pNextPool = 0,
         \<dots> = ([0x1090, 0x1094, 0x1098, 0x109C, 0x10A0, 0x10A4], [0x108C, 0x1088])\<rparr>],
      heap = (0x10A8, 0x2000)\<rparr>"

definition after_free :: "(32, chunk_lists, heap_area) mem_state" where
  "after_free =
     \<lparr>mem_Pools = (\<lambda>_. 0), mem_FreeChunksNumber = (\<lambda>_. 0),
      mem_PoolForPoolHeaders =
        \<lparr>m_pPoolStart = 0x1000, m_PoolSize = 132, m_pChunks = 0x1004, m_ChunksNumber = 4,
         m_FreeChunksNumber = 4, m_pNextPool = 0, \<dots> = ([0x1004, 0x1024, 0x1044, 0x1064], [])\<rparr>,
      mem_SpaceForPoolForPoolHeaders = 0x1000,
      pool_mem = [0x1004 \<mapsto>
        \<lparr>m_pPoolStart = 0x1084, m_PoolSize = 36, m_pChunks = 0x1088, m_ChunksNumber = 8,
         m_FreeChunksNumber = 8, m_pNextPool = 0,
         \<dots> = ([0x1088, 0x108C, 0x1090, 0x1094, 0x1098, 0x109C, 0x10A0, 0x10A4], [])\<rparr>],
      heap = (0x10A8, 0x2000)\<rparr>"

definition tight_init :: "(32, chunk_lists, heap_area) mem_state" where
  "tight_init =
     \<lparr>mem_Pools = (\<lambda>_. 0), mem_FreeChunksNumber = (\<lambda>_. 0),
      mem_PoolForPoolHeaders =
        \<lparr>m_pPoolStart = 0x1000, m_PoolSize = 132, m_pChunks = 0x1004, m_ChunksNumber = 4,
         m_FreeChunksNumber = 4, m_pNextPool = 0, \<dots> = ([0x1004, 0x1024, 0x1044, 0x1064], [])\<rparr>,
      mem_SpaceForPoolForPoolHeaders = 0x1000, pool_mem = Map.empty, heap = (0x1084, 0x1084)\<rparr>"

text \<open>
  The state after \<^verbatim>\<open>mem_PoolsInit\<close> on a heap area, \<open>0x1000\<close> to \<open>0x1080\<close>, too small for
  the block of the pool of pool headers: the heap has returned \<^verbatim>\<open>NULL\<close>, and the pool of
  pool headers has been initialised over \<^verbatim>\<open>NULL\<close>.
\<close>

definition failed_init :: "(32, chunk_lists, heap_area) mem_state" where
  "failed_init =
     \<lparr>mem_Pools = (\<lambda>_. 0), mem_FreeChunksNumber = (\<lambda>_. 0),
      mem_PoolForPoolHeaders =
        \<lparr>m_pPoolStart = 0, m_PoolSize = 132, m_pChunks = 4, m_ChunksNumber = 4,
         m_FreeChunksNumber = 4, m_pNextPool = 0, \<dots> = ([4, 0x24, 0x44, 0x64], [])\<rparr>,
      mem_SpaceForPoolForPoolHeaders = 0, pool_mem = Map.empty, heap = (0x1000, 0x1080)\<rparr>"

text \<open>
  The state after \<^verbatim>\<open>mem_PoolsAlloc\<close> for size class 1 that follows the first allocation
  for size class 0.
\<close>

definition after_other :: "(32, chunk_lists, heap_area) mem_state" where
  "after_other =
     \<lparr>mem_Pools = (\<lambda>_. 0)(0 := 0x1004, 1 := 0x1024),
      mem_FreeChunksNumber = (\<lambda>_. 0)(0 := 7, 1 := 7),
      mem_PoolForPoolHeaders =
        \<lparr>m_pPoolStart = 0x1000, m_PoolSize = 132, m_pChunks = 0x1004, m_ChunksNumber = 4,
         m_FreeChunksNumber = 2, m_pNextPool = 0, \<dots> = ([0x1044, 0x1064], [0x1024, 0x1004])\<rparr>,
      mem_SpaceForPoolForPoolHeaders = 0x1000,
      pool_mem = [0x1004 \<mapsto>
        \<lparr>m_pPoolStart = 0x1084, m_PoolSize = 36, m_pChunks = 0x1088, m_ChunksNumber = 8,
         m_FreeChunksNumber = 7, m_pNextPool = 0,
         \<dots> = ([0x108C, 0x1090, 0x1094, 0x1098, 0x109C, 0x10A0, 0x10A4], [0x1088])\<rparr>,
        0x1024 \<mapsto>
        \<lparr>m_pPoolStart = 0x10A8, m_PoolSize = 68, m_pChunks = 0x10AC, m_ChunksNumber = 8,
         m_FreeChunksNumber = 7, m_pNextPool = 0,
         \<dots> = ([0x10B4, 0x10BC, 0x10C4, 0x10CC, 0x10D4, 0x10DC, 0x10E4], [0x10AC])\<rparr>],
      heap = (0x10EC, 0x2000)\<rparr>"

declare alloc_find.simps [code] free_find.simps [code] pool_chain.simps [code]

section \<open>Chains, the search loops and the invariant\<close>

lemma seg_Nil_iff [simp]: "seg m 0 as t \<longleftrightarrow> as = [] \<and> t = 0"
  by (cases as) auto

lemma seg_append: "seg m h (as @ bs) t \<longleftrightarrow> (\<exists>u. seg m h as u \<and> seg m u bs t)"
  by (induction as arbitrary: h) (auto split: option.splits)

lemma seg_mem: "seg m h as t \<Longrightarrow> a \<in> set as \<Longrightarrow> a \<noteq> 0 \<and> (\<exists>r. m a = Some r)"
  by (induction as arbitrary: h) (auto split: option.splits)

lemma path_unique: "seg m h as 0 \<Longrightarrow> seg m h bs 0 \<Longrightarrow> as = bs"
proof (induction as arbitrary: h bs)
  case Nil
  then show ?case by (cases bs) auto
next
  case (Cons a as)
  then show ?case by (cases bs) (auto split: option.splits)
qed

lemma path_distinct: "seg m h as 0 \<Longrightarrow> distinct as"
proof (induction as arbitrary: h)
  case Nil
  then show ?case by simp
next
  case (Cons a as)
  then obtain r where r: "m a = Some r" and tl: "seg m (m_pNextPool r) as 0"
    by (auto split: option.splits)
  have "a \<notin> set as"
  proof
    assume "a \<in> set as"
    then obtain ys zs where as: "as = ys @ a # zs" by (auto dest: split_list)
    with tl obtain u where "seg m u (a # zs) 0" by (auto simp: seg_append)
    with r have "seg m (m_pNextPool r) zs 0" by auto
    with tl have "as = zs" by (rule path_unique)
    with as show False by simp
  qed
  with Cons.IH[OF tl] show ?case by simp
qed

lemma seg_upd_other: "a \<notin> set as \<Longrightarrow> seg (m(a \<mapsto> r)) h as t \<longleftrightarrow> seg m h as t"
  by (induction as arbitrary: h) (auto split: option.splits)

lemma seg_upd_link:
  "m a = Some r \<Longrightarrow> m_pNextPool r' = m_pNextPool r \<Longrightarrow> seg (m(a \<mapsto> r')) h as t \<longleftrightarrow> seg m h as t"
  by (induction as arbitrary: h) (auto split: option.splits)

lemma pool_chain_seg: "pool_chain m h = Some as \<longleftrightarrow> seg m h as 0"
proof
  show "pool_chain m h = Some as \<Longrightarrow> seg m h as 0"
  proof (induction as arbitrary: h)
    case Nil
    then show ?case
      by (subst (asm) pool_chain.simps) (auto split: if_splits option.splits simp: bind_eq_Some_conv)
  next
    case (Cons a as)
    from Cons.prems show ?case
      by (subst (asm) pool_chain.simps) (auto split: if_splits option.splits simp: bind_eq_Some_conv intro: Cons.IH)
  qed
  show "seg m h as 0 \<Longrightarrow> pool_chain m h = Some as"
  proof (induction as arbitrary: h)
    case Nil
    then show ?case by (subst pool_chain.simps) simp
  next
    case (Cons a as)
    then show ?case by (subst pool_chain.simps) (auto split: option.splits)
  qed
qed

lemma alloc_find_seg:
  "seg m h as 0 \<Longrightarrow>
   alloc_find m h = Some (case as of [] \<Rightarrow> Inl NullDereference
                          | _ \<Rightarrow> (case first_free m as of None \<Rightarrow> Inl AssertionFailure | Some a \<Rightarrow> Inr a))"
proof (induction as arbitrary: h)
  case Nil
  then show ?case by (subst alloc_find.simps) simp
next
  case (Cons a as)
  then obtain r where r: "h = a" "a \<noteq> 0" "m a = Some r" and tl: "seg m (m_pNextPool r) as 0"
    by (auto split: option.splits)
  show ?case
  proof (cases "m_FreeChunksNumber r = 0")
    case False
    with r show ?thesis by (subst alloc_find.simps) (simp add: first_free_def pool_free_def)
  next
    case True
    show ?thesis
    proof (cases as)
      case Nil
      with tl True r show ?thesis by (subst alloc_find.simps) (simp add: first_free_def pool_free_def)
    next
      case (Cons b bs)
      with tl have "m_pNextPool r \<noteq> 0" by auto
      with True r Cons.IH[OF tl] Cons show ?thesis
        by (subst alloc_find.simps) (simp add: first_free_def pool_free_def)
    qed
  qed
qed

lemma free_find_seg:
  "seg m h as 0 \<Longrightarrow>
   free_find m p h prev = Some (case as of [] \<Rightarrow> Inl NullDereference
                          | _ \<Rightarrow> (case first_owner m p prev as of None \<Rightarrow> Inl AssertionFailure | Some x \<Rightarrow> Inr x))"
proof (induction as arbitrary: h prev)
  case Nil
  then show ?case by (subst free_find.simps) simp
next
  case (Cons a as)
  then obtain r where r: "h = a" "a \<noteq> 0" "m a = Some r" and tl: "seg m (m_pNextPool r) as 0"
    by (auto split: option.splits)
  show ?case
  proof (cases "pool_contains r p")
    case True
    with r show ?thesis by (subst free_find.simps) simp
  next
    case False
    show ?thesis
    proof (cases as)
      case Nil
      with tl False r show ?thesis by (subst free_find.simps) simp
    next
      case (Cons b bs)
      with tl have "m_pNextPool r \<noteq> 0" by auto
      with False r Cons.IH[OF tl, of a] Cons show ?thesis
        by (subst free_find.simps) simp
    qed
  qed
qed

lemma seg_cong: "(\<forall>a\<in>set as. m' a = m a) \<Longrightarrow> seg m' h as t \<longleftrightarrow> seg m h as t"
  by (induction as arbitrary: h) (auto split: option.splits)

lemma pool_free_upd [simp]:
  "pool_free (m(a \<mapsto> r)) b = (if b = a then m_FreeChunksNumber r else pool_free m b)"
  by (simp add: pool_free_def)

lemma pool_free_Some: "m a = Some r \<Longrightarrow> pool_free m a = m_FreeChunksNumber r"
  by (simp add: pool_free_def)

lemma sum_free_cong:
  "(\<forall>a\<in>set as. m' a = m a) \<Longrightarrow> sum_list (map (pool_free m') as) = sum_list (map (pool_free m) as)"
  by (induction as) (auto simp: pool_free_def)

lemma sum_free_upd:
  assumes "distinct as" and "a \<in> set as"
  shows "sum_list (map (pool_free (m(a \<mapsto> r'))) as) =
         sum_list (map (pool_free m) as) - pool_free m a + m_FreeChunksNumber r'"
proof -
  from assms(2) obtain ys zs where as: "as = ys @ a # zs" by (auto dest: split_list)
  with assms(1) have "a \<notin> set ys" "a \<notin> set zs" by auto
  then have "sum_list (map (pool_free (m(a \<mapsto> r'))) ys) = sum_list (map (pool_free m) ys)"
    and "sum_list (map (pool_free (m(a \<mapsto> r'))) zs) = sum_list (map (pool_free m) zs)"
    by (auto intro!: sum_free_cong)
  then show ?thesis unfolding as by simp
qed

lemma base_invI:
  assumes "pinv (mem_PoolForPoolHeaders s)"
    and "\<And>c. c < MEM_POOL_CHUNK_TYPE__COUNT E \<Longrightarrow> class_inv pinv used X s c (f c)"
    and "\<And>c c'. c < MEM_POOL_CHUNK_TYPE__COUNT E \<Longrightarrow> c' < MEM_POOL_CHUNK_TYPE__COUNT E \<Longrightarrow> c \<noteq> c' \<Longrightarrow>
           set (f c) \<inter> set (f c') = {}"
  shows "base_inv E pinv used X s"
  unfolding base_inv_def
proof (intro conjI allI impI)
  show "pinv (mem_PoolForPoolHeaders s)" by fact
next
  fix c assume "c < MEM_POOL_CHUNK_TYPE__COUNT E"
  then show "\<exists>as. class_inv pinv used X s c as" using assms(2) by blast
next
  fix c c' as bs
  assume c: "c < MEM_POOL_CHUNK_TYPE__COUNT E" "c' < MEM_POOL_CHUNK_TYPE__COUNT E" "c \<noteq> c'"
    and p: "seg (pool_mem s) (mem_Pools s c) as 0" "seg (pool_mem s) (mem_Pools s c') bs 0"
  from assms(2)[OF c(1)] p(1) have "as = f c" by (auto simp: class_inv_def dest: path_unique)
  moreover from assms(2)[OF c(2)] p(2) have "bs = f c'" by (auto simp: class_inv_def dest: path_unique)
  ultimately show "set as \<inter> set bs = {}" using assms(3)[OF c] by simp
qed

lemma base_invD:
  assumes "base_inv E pinv used X s"
  obtains f where "pinv (mem_PoolForPoolHeaders s)"
    and "\<And>c. c < MEM_POOL_CHUNK_TYPE__COUNT E \<Longrightarrow> class_inv pinv used X s c (f c)"
    and "\<And>c c'. c < MEM_POOL_CHUNK_TYPE__COUNT E \<Longrightarrow> c' < MEM_POOL_CHUNK_TYPE__COUNT E \<Longrightarrow> c \<noteq> c' \<Longrightarrow>
           set (f c) \<inter> set (f c') = {}"
proof -
  from assms have "\<forall>c. \<exists>as. c < MEM_POOL_CHUNK_TYPE__COUNT E \<longrightarrow> class_inv pinv used X s c as"
    by (auto simp: base_inv_def)
  then obtain f where f: "\<And>c. c < MEM_POOL_CHUNK_TYPE__COUNT E \<Longrightarrow> class_inv pinv used X s c (f c)"
    by metis
  show thesis
  proof (rule that[of f])
    show "pinv (mem_PoolForPoolHeaders s)" using assms by (simp add: base_inv_def)
    show "\<And>c. c < MEM_POOL_CHUNK_TYPE__COUNT E \<Longrightarrow> class_inv pinv used X s c (f c)" by (rule f)
    fix c c'
    assume c: "c < MEM_POOL_CHUNK_TYPE__COUNT E" "c' < MEM_POOL_CHUNK_TYPE__COUNT E" "c \<noteq> c'"
    from f[OF c(1)] f[OF c(2)] have "seg (pool_mem s) (mem_Pools s c) (f c) 0" "seg (pool_mem s) (mem_Pools s c') (f c') 0"
      by (auto simp: class_inv_def)
    with assms c show "set (f c) \<inter> set (f c') = {}"
      unfolding base_inv_def by blast
  qed
qed

lemma node_inv_mono: "node_inv pinv X a r \<Longrightarrow> (a \<in> X \<Longrightarrow> a \<in> Y) \<Longrightarrow> node_inv pinv Y a r"
  by (auto simp: node_inv_def)

lemma class_inv_frame:
  assumes "class_inv pinv used X s c as"
    and "mem_Pools s' c = mem_Pools s c"
    and "mem_FreeChunksNumber s' c = mem_FreeChunksNumber s c"
    and "\<forall>a\<in>set as. pool_mem s' a = pool_mem s a"
    and "used (mem_PoolForPoolHeaders s) - D \<subseteq> used (mem_PoolForPoolHeaders s')"
    and "set as \<inter> D = {}"
    and "set as \<inter> X \<subseteq> Y"
  shows "class_inv pinv used Y s' c as"
proof -
  from assms(4) have "seg (pool_mem s') (mem_Pools s c) as 0 \<longleftrightarrow> seg (pool_mem s) (mem_Pools s c) as 0"
    by (rule seg_cong)
  moreover from assms(4) have "sum_list (map (pool_free (pool_mem s')) as) = sum_list (map (pool_free (pool_mem s)) as)"
    by (rule sum_free_cong)
  moreover have "\<forall>a\<in>set as. \<forall>r. pool_mem s' a = Some r \<longrightarrow> node_inv pinv Y a r"
  proof (intro ballI allI impI)
    fix a r assume a: "a \<in> set as" "pool_mem s' a = Some r"
    with assms(1,4) have "node_inv pinv X a r" by (auto simp: class_inv_def)
    with a(1) assms(7) show "node_inv pinv Y a r" by (auto simp: node_inv_def)
  qed
  ultimately show ?thesis
    using assms(1,2,3,5,6) unfolding class_inv_def by auto
qed

lemma first_free_SomeD:
  "first_free m as = Some a \<Longrightarrow> a \<in> set as \<and> pool_free m a \<noteq> 0"
  by (auto simp: first_free_def find_Some_iff)

lemma alloc_take_seg:
  assumes "seg (pool_mem s) (mem_Pools s c) as 0"
  shows "alloc_take E c s =
    (case as of
       [] \<Rightarrow> Some (Inl NullDereference)
     | _ \<Rightarrow> (case first_free (pool_mem s) as of
               None \<Rightarrow> Some (Inl AssertionFailure)
             | Some a \<Rightarrow> (case pool_mem s a of
                  None \<Rightarrow> Some (Inl InvalidDereference)
                | Some r \<Rightarrow> Some (Inr (a, fst (mem_PoolAllocChunk E r),
                     s\<lparr>mem_FreeChunksNumber := (mem_FreeChunksNumber s)(c := mem_FreeChunksNumber s c - 1),
                       pool_mem := (pool_mem s)(a \<mapsto> snd (mem_PoolAllocChunk E r))\<rparr>)))))"
  by (simp add: alloc_take_def alloc_find_seg[OF assms] split: list.splits option.splits prod.splits)

lemma alloc_take_SomeD:
  assumes "seg (pool_mem s) (mem_Pools s c) as 0" and "alloc_take E c s = Some (Inr (a, p, s'))"
  obtains r r' where "first_free (pool_mem s) as = Some a" "a \<in> set as" "pool_mem s a = Some r"
    "m_FreeChunksNumber r \<noteq> 0" "mem_PoolAllocChunk E r = (p, r')"
    "s' = s\<lparr>mem_FreeChunksNumber := (mem_FreeChunksNumber s)(c := mem_FreeChunksNumber s c - 1),
            pool_mem := (pool_mem s)(a \<mapsto> r')\<rparr>"
proof -
  from assms(2) have ff: "first_free (pool_mem s) as = Some a"
    unfolding alloc_take_seg[OF assms(1)] by (auto split: list.splits option.splits)
  then have a: "a \<in> set as" "pool_free (pool_mem s) a \<noteq> 0" by (auto dest: first_free_SomeD)
  with seg_mem[OF assms(1)] obtain r where r: "pool_mem s a = Some r" by blast
  with a have nz: "m_FreeChunksNumber r \<noteq> 0" by (simp add: pool_free_def)
  obtain q r' where q: "mem_PoolAllocChunk E r = (q, r')" by (cases "mem_PoolAllocChunk E r")
  from assms(2) ff r q a have "p = q" and
    "s' = s\<lparr>mem_FreeChunksNumber := (mem_FreeChunksNumber s)(c := mem_FreeChunksNumber s c - 1),
            pool_mem := (pool_mem s)(a \<mapsto> r')\<rparr>"
    unfolding alloc_take_seg[OF assms(1)] by (auto split: list.splits)
  with ff a r nz q show thesis by (auto intro: that)
qed

lemma contract_alloc:
  assumes "pool_contract E pinv used" and "pinv r" and "mem_PoolAllocChunk E r = (p, r')"
  shows "pinv r'" and "same_pool r r'"
    and "m_FreeChunksNumber r = 0 \<Longrightarrow> p = 0 \<and> used r' = used r"
    and "m_FreeChunksNumber r \<noteq> 0 \<Longrightarrow> p \<noteq> 0 \<and> p \<notin> used r \<and> used r' = insert p (used r) \<and>
           m_FreeChunksNumber r' = m_FreeChunksNumber r - 1"
proof -
  from assms(1) have "alloc_contract E pinv used" by (simp add: pool_contract_def)
  then have *: "pinv r' \<and> same_pool r r' \<and>
        (m_FreeChunksNumber r = 0 \<longrightarrow> p = 0 \<and> used r' = used r) \<and>
        (m_FreeChunksNumber r \<noteq> 0 \<longrightarrow>
           p \<noteq> 0 \<and> p \<notin> used r \<and> used r' = insert p (used r) \<and>
           m_FreeChunksNumber r' = m_FreeChunksNumber r - 1)"
    using assms(2,3) unfolding alloc_contract_def by (elim allE[of _ r] allE[of _ p] allE[of _ r']) simp
  from * show "pinv r'" by simp
  from * show "same_pool r r'" by simp
  from * show "m_FreeChunksNumber r = 0 \<Longrightarrow> p = 0 \<and> used r' = used r" by simp
  from * show "m_FreeChunksNumber r \<noteq> 0 \<Longrightarrow> p \<noteq> 0 \<and> p \<notin> used r \<and> used r' = insert p (used r) \<and>
           m_FreeChunksNumber r' = m_FreeChunksNumber r - 1" by simp
qed

lemma contract_free:
  assumes "pool_contract E pinv used" and "pinv r" and "p \<in> used r"
  shows "unat (m_FreeChunksNumber r) < unat (m_ChunksNumber r)"
    and "pinv (mem_PoolFreeChunk E r p)" and "same_pool r (mem_PoolFreeChunk E r p)"
    and "used (mem_PoolFreeChunk E r p) = used r - {p}"
    and "m_FreeChunksNumber (mem_PoolFreeChunk E r p) = m_FreeChunksNumber r + 1"
proof -
  from assms(1) have "free_contract E pinv used" by (simp add: pool_contract_def)
  then have *: "unat (m_FreeChunksNumber r) < unat (m_ChunksNumber r) \<and>
        pinv (mem_PoolFreeChunk E r p) \<and> same_pool r (mem_PoolFreeChunk E r p) \<and>
        used (mem_PoolFreeChunk E r p) = used r - {p} \<and>
        m_FreeChunksNumber (mem_PoolFreeChunk E r p) = m_FreeChunksNumber r + 1"
    using assms(2,3) unfolding free_contract_def by (elim allE[of _ r] allE[of _ p]) simp
  from * show "unat (m_FreeChunksNumber r) < unat (m_ChunksNumber r)" by simp
  from * show "pinv (mem_PoolFreeChunk E r p)" by simp
  from * show "same_pool r (mem_PoolFreeChunk E r p)" by simp
  from * show "used (mem_PoolFreeChunk E r p) = used r - {p}" by simp
  from * show "m_FreeChunksNumber (mem_PoolFreeChunk E r p) = m_FreeChunksNumber r + 1" by simp
qed

lemma contract_init:
  assumes "pool_contract E pinv used"
  shows "pinv (mem_PoolInit E cs ps sz)" and "used (mem_PoolInit E cs ps sz) = {}"
    and "m_FreeChunksNumber (mem_PoolInit E cs ps sz) = m_ChunksNumber (mem_PoolInit E cs ps sz)"
    and "m_pPoolStart (mem_PoolInit E cs ps sz) = ps" and "m_PoolSize (mem_PoolInit E cs ps sz) = sz"
  using assms unfolding pool_contract_def init_contract_def by simp_all

lemma contract_link:
  assumes "pool_contract E pinv used"
  shows "pinv (r\<lparr>m_pNextPool := x\<rparr>) = pinv r" and "used (r\<lparr>m_pNextPool := x\<rparr>) = used r"
  using assms unfolding pool_contract_def link_contract_def by simp_all

lemma unat_pred_less:
  fixes w :: "'a :: len word"
  assumes "w \<noteq> 0"
  shows "unat (w - 1) < unat w"
proof -
  from assms have "unat (w - 1) = unat w - 1" by (rule unat_minus_one)
  moreover from assms have "0 < unat w" by (simp add: unat_gt_0)
  ultimately show ?thesis by simp
qed

lemma node_inv_alloc:
  assumes C: "pool_contract E pinv used" and n: "node_inv pinv X a r"
    and nz: "m_FreeChunksNumber r \<noteq> 0" and A: "mem_PoolAllocChunk E r = (p, r')"
  shows "node_inv pinv Y a r'"
proof -
  from n have pr: "pinv r" and le: "unat (m_FreeChunksNumber r) \<le> unat (m_ChunksNumber r)"
    by (auto simp: node_inv_def)
  note ca = contract_alloc[OF C pr A]
  from ca(2) have sp: "m_ChunksNumber r' = m_ChunksNumber r" by (simp add: same_pool_def)
  from ca(4)[OF nz] have fr: "m_FreeChunksNumber r' = m_FreeChunksNumber r - 1" by simp
  from unat_pred_less[OF nz] le fr sp
  have lt: "unat (m_FreeChunksNumber r') < unat (m_ChunksNumber r')" by simp
  then have "m_FreeChunksNumber r' \<noteq> m_ChunksNumber r'" by auto
  with lt ca(1) show ?thesis by (simp add: node_inv_def idle_pool_def)
qed

lemma first_free_head:
  "seg m h as 0 \<Longrightarrow> first_free m as = Some a \<Longrightarrow> m h = Some rb \<Longrightarrow>
   m_FreeChunksNumber rb \<noteq> 0 \<Longrightarrow> a = h"
  by (cases as) (auto simp: first_free_def pool_free_def)

lemma seg_head_mem: "seg m h as 0 \<Longrightarrow> as \<noteq> [] \<Longrightarrow> h \<in> set as"
  by (cases as) auto

lemma alloc_take_base:
  assumes C: "pool_contract E pinv used" and I: "base_inv E pinv used X s"
    and X: "X \<subseteq> {mem_Pools s c}"
    and c: "c < MEM_POOL_CHUNK_TYPE__COUNT E"
    and T: "alloc_take E c s = Some (Inr (a, p, s'))"
  shows "base_inv E pinv used {} s'"
proof -
  from I obtain f where hp: "pinv (mem_PoolForPoolHeaders s)"
    and f: "\<And>c. c < MEM_POOL_CHUNK_TYPE__COUNT E \<Longrightarrow> class_inv pinv used X s c (f c)"
    and dj: "\<And>c c'. c < MEM_POOL_CHUNK_TYPE__COUNT E \<Longrightarrow> c' < MEM_POOL_CHUNK_TYPE__COUNT E \<Longrightarrow> c \<noteq> c' \<Longrightarrow>
           set (f c) \<inter> set (f c') = {}"
    by (rule base_invD) (rule that)
  note fc = f[OF c, unfolded class_inv_def]
  from fc have sg: "seg (pool_mem s) (mem_Pools s c) (f c) 0" by simp
  from sg T obtain r r' where ff: "first_free (pool_mem s) (f c) = Some a"
    and a: "a \<in> set (f c)" and r: "pool_mem s a = Some r"
    and nz: "m_FreeChunksNumber r \<noteq> 0" and A: "mem_PoolAllocChunk E r = (p, r')"
    and s': "s' = s\<lparr>mem_FreeChunksNumber := (mem_FreeChunksNumber s)(c := mem_FreeChunksNumber s c - 1),
            pool_mem := (pool_mem s)(a \<mapsto> r')\<rparr>"
    by (rule alloc_take_SomeD)
  from fc a r have nr: "node_inv pinv X a r" by auto
  then have pr: "pinv r" by (simp add: node_inv_def)
  note ca = contract_alloc[OF C pr A]
  from ca(2) have sp: "m_pNextPool r' = m_pNextPool r" by (auto simp: same_pool_def)
  from ca(4)[OF nz] have fr: "m_FreeChunksNumber r' = m_FreeChunksNumber r - 1" by simp
  from a have ne: "f c \<noteq> []" by auto
  from seg_head_mem[OF sg ne] have hd: "mem_Pools s c \<in> set (f c)" .
  show ?thesis
  proof (rule base_invI[where f = f])
    show "pinv (mem_PoolForPoolHeaders s')" using hp s' by simp
  next
    fix c' assume c': "c' < MEM_POOL_CHUNK_TYPE__COUNT E"
    show "class_inv pinv used {} s' c' (f c')"
    proof (cases "c' = c")
      case True
      have "seg (pool_mem s') (mem_Pools s' c) (f c) 0"
        using sg s' by (simp add: seg_upd_link[where m = "pool_mem s", OF r sp(1)])
      moreover have "set (f c) \<subseteq> used (mem_PoolForPoolHeaders s')" using fc s' by simp
      moreover have "\<forall>b\<in>set (f c). \<forall>rb. pool_mem s' b = Some rb \<longrightarrow> node_inv pinv {} b rb"
      proof (intro ballI allI impI)
        fix b rb assume b: "b \<in> set (f c)" "pool_mem s' b = Some rb"
        show "node_inv pinv {} b rb"
        proof (cases "b = a")
          case True
          with b s' have "rb = r'" by simp
          with node_inv_alloc[OF C nr nz A] True show ?thesis by simp
        next
          case False
          with b s' have rb: "pool_mem s b = Some rb" by simp
          with fc b have n: "node_inv pinv X b rb" by auto
          have "\<not> idle_pool rb"
          proof
            assume idle: "idle_pool rb"
            with n have "b \<in> X" by (auto simp: node_inv_def)
            with X have "b = mem_Pools s c" by auto
            moreover from idle have "m_FreeChunksNumber rb \<noteq> 0" by (auto simp: idle_pool_def)
            ultimately have "a = b" using first_free_head[OF sg ff] rb by simp
            with False show False by simp
          qed
          with n show ?thesis by (simp add: node_inv_def)
        qed
      qed
      moreover have "mem_FreeChunksNumber s' c = sum_list (map (pool_free (pool_mem s')) (f c))"
        using fc fr r s' by (simp add: sum_free_upd[OF path_distinct[OF sg] a] pool_free_Some)
      ultimately show ?thesis using True by (simp add: class_inv_def)
    next
      case False
      with dj[OF c c'] a have "a \<notin> set (f c')" by auto
      moreover from dj[OF c c'] False hd X have "set (f c') \<inter> X \<subseteq> {}" by auto
      ultimately show ?thesis
        using False s' by (intro class_inv_frame[OF f[OF c'], where D = "{}"]) auto
    qed
  next
    fix c1 c2
    assume "c1 < MEM_POOL_CHUNK_TYPE__COUNT E" "c2 < MEM_POOL_CHUNK_TYPE__COUNT E" "c1 \<noteq> c2"
    then show "set (f c1) \<inter> set (f c2) = {}" by (rule dj)
  qed
qed

lemma sum_free_eq:
  "(\<forall>a\<in>set as. pool_free m' a = pool_free m a) \<Longrightarrow>
   sum_list (map (pool_free m') as) = sum_list (map (pool_free m) as)"
  by (induction as) auto

lemma alloc_grow_Inr:
  assumes "alloc_grow E c cs s = Inr (Inr s1)"
  obtains ps hp blk h where
    "mem_PoolAllocChunk E (mem_PoolForPoolHeaders s) = (ps, hp)" "ps \<noteq> 0"
    "mem_HeapAllocBlock E (heap s) (mem_HeapRecommendAllocationSize E (8 * cs + sizeof_mword_t E))
       MEM_HEAP_ALLOC_LONG_TERM = (blk, h)" "blk \<noteq> 0"
    "s1 = s\<lparr>mem_PoolForPoolHeaders := hp, heap := h,
            pool_mem := (pool_mem s)(ps \<mapsto>
              (mem_PoolInit E cs blk (mem_HeapRecommendAllocationSize E (8 * cs + sizeof_mword_t E)))
                \<lparr>m_pNextPool := mem_Pools s c\<rparr>),
            mem_Pools := (mem_Pools s)(c := ps),
            mem_FreeChunksNumber := (mem_FreeChunksNumber s)
              (c := mem_FreeChunksNumber s c + m_FreeChunksNumber
                 (mem_PoolInit E cs blk (mem_HeapRecommendAllocationSize E (8 * cs + sizeof_mword_t E))))\<rparr>"
    "mem_SpaceForPoolForPoolHeaders s \<noteq> 0"
  using assms unfolding alloc_grow_def
  by (auto simp: Let_def split: prod.splits if_splits)

lemma alloc_grow_Inl:
  assumes "alloc_grow E c cs s = Inr (Inl (p, s1))"
  obtains (header) hp where
      "mem_PoolAllocChunk E (mem_PoolForPoolHeaders s) = (0, hp)" "p = 0"
      "s1 = s\<lparr>mem_PoolForPoolHeaders := hp\<rparr>"
  | (block) ps hp h where
      "mem_PoolAllocChunk E (mem_PoolForPoolHeaders s) = (ps, hp)" "ps \<noteq> 0"
      "mem_HeapAllocBlock E (heap s) (mem_HeapRecommendAllocationSize E (8 * cs + sizeof_mword_t E))
         MEM_HEAP_ALLOC_LONG_TERM = (0, h)" "p = 0"
      "s1 = s\<lparr>mem_PoolForPoolHeaders := hp, heap := h\<rparr>"
  using assms unfolding alloc_grow_def
  by (auto simp: Let_def split: prod.splits if_splits)

lemma base_inv_header:
  assumes I: "base_inv E pinv used X s" and "pinv hp" and "used (mem_PoolForPoolHeaders s) \<subseteq> used hp"
  shows "base_inv E pinv used X (s\<lparr>mem_PoolForPoolHeaders := hp, heap := h\<rparr>)"
proof -
  from I obtain f where
    f: "\<And>c. c < MEM_POOL_CHUNK_TYPE__COUNT E \<Longrightarrow> class_inv pinv used X s c (f c)"
    and dj: "\<And>c c'. c < MEM_POOL_CHUNK_TYPE__COUNT E \<Longrightarrow> c' < MEM_POOL_CHUNK_TYPE__COUNT E \<Longrightarrow> c \<noteq> c' \<Longrightarrow>
           set (f c) \<inter> set (f c') = {}"
    by (rule base_invD) (rule that)
  show ?thesis
  proof (rule base_invI[where f = f])
    show "pinv (mem_PoolForPoolHeaders (s\<lparr>mem_PoolForPoolHeaders := hp, heap := h\<rparr>))"
      using assms(2) by simp
  next
    fix c assume "c < MEM_POOL_CHUNK_TYPE__COUNT E"
    from f[OF this] show "class_inv pinv used X (s\<lparr>mem_PoolForPoolHeaders := hp, heap := h\<rparr>) c (f c)"
      by (rule class_inv_frame[where D = "{}"]) (use assms(3) in auto)
  next
    fix c1 c2
    assume "c1 < MEM_POOL_CHUNK_TYPE__COUNT E" "c2 < MEM_POOL_CHUNK_TYPE__COUNT E" "c1 \<noteq> c2"
    then show "set (f c1) \<inter> set (f c2) = {}" by (rule dj)
  qed
qed

lemma alloc_grow_Inl_base:
  assumes C: "pool_contract E pinv used" and I: "base_inv E pinv used X s"
    and G: "alloc_grow E c cs s = Inr (Inl (p, s1))"
  shows "base_inv E pinv used X s1"
proof -
  from I have hp0: "pinv (mem_PoolForPoolHeaders s)" by (simp add: base_inv_def)
  from G show ?thesis
  proof (cases rule: alloc_grow_Inl)
    case (header hp)
    note ca = contract_alloc[OF C hp0 header(1)]
    have "used (mem_PoolForPoolHeaders s) \<subseteq> used hp"
      using ca(3,4) by (cases "m_FreeChunksNumber (mem_PoolForPoolHeaders s) = 0") auto
    from base_inv_header[OF I ca(1) this, of "heap s"] header(3) show ?thesis by simp
  next
    case (block ps hp h)
    note ca = contract_alloc[OF C hp0 block(1)]
    have "used (mem_PoolForPoolHeaders s) \<subseteq> used hp"
      using ca(3,4) by (cases "m_FreeChunksNumber (mem_PoolForPoolHeaders s) = 0") auto
    from base_inv_header[OF I ca(1) this, of h] block(5) show ?thesis by simp
  qed
qed

lemma node_inv_init:
  assumes C: "pool_contract E pinv used"
  shows "node_inv pinv {a} a ((mem_PoolInit E cs ps sz)\<lparr>m_pNextPool := x\<rparr>)"
  using contract_init[OF C, of cs ps sz] contract_link[OF C]
  by (simp add: node_inv_def)

lemma node_inv_link:
  assumes C: "pool_contract E pinv used" and "node_inv pinv X a r"
  shows "node_inv pinv X a (r\<lparr>m_pNextPool := x\<rparr>)"
  using assms(2) contract_link[OF C] by (simp add: node_inv_def idle_pool_def)

lemma alloc_grow_Inr_base:
  assumes C: "pool_contract E pinv used" and I: "base_inv E pinv used {} s"
    and c: "c < MEM_POOL_CHUNK_TYPE__COUNT E"
    and G: "alloc_grow E c cs s = Inr (Inr s1)"
  shows "base_inv E pinv used {mem_Pools s1 c} s1"
proof -
  from I obtain f where hp0: "pinv (mem_PoolForPoolHeaders s)"
    and f: "\<And>c. c < MEM_POOL_CHUNK_TYPE__COUNT E \<Longrightarrow> class_inv pinv used {} s c (f c)"
    and dj: "\<And>c c'. c < MEM_POOL_CHUNK_TYPE__COUNT E \<Longrightarrow> c' < MEM_POOL_CHUNK_TYPE__COUNT E \<Longrightarrow> c \<noteq> c' \<Longrightarrow>
           set (f c) \<inter> set (f c') = {}"
    by (rule base_invD) (rule that)
  from G obtain ps hp blk h where A: "mem_PoolAllocChunk E (mem_PoolForPoolHeaders s) = (ps, hp)"
    and ps: "ps \<noteq> 0"
    and s1: "s1 = s\<lparr>mem_PoolForPoolHeaders := hp, heap := h,
            pool_mem := (pool_mem s)(ps \<mapsto>
              (mem_PoolInit E cs blk (mem_HeapRecommendAllocationSize E (8 * cs + sizeof_mword_t E)))
                \<lparr>m_pNextPool := mem_Pools s c\<rparr>),
            mem_Pools := (mem_Pools s)(c := ps),
            mem_FreeChunksNumber := (mem_FreeChunksNumber s)
              (c := mem_FreeChunksNumber s c + m_FreeChunksNumber
                 (mem_PoolInit E cs blk (mem_HeapRecommendAllocationSize E (8 * cs + sizeof_mword_t E))))\<rparr>"
    by (rule alloc_grow_Inr)
  define r0 where "r0 = mem_PoolInit E cs blk (mem_HeapRecommendAllocationSize E (8 * cs + sizeof_mword_t E))"
  note ca = contract_alloc[OF C hp0 A]
  from ca(3) ps have nz: "m_FreeChunksNumber (mem_PoolForPoolHeaders s) \<noteq> 0" by auto
  from ca(4)[OF nz] have fresh: "ps \<notin> used (mem_PoolForPoolHeaders s)"
    and used: "used hp = insert ps (used (mem_PoolForPoolHeaders s))" by auto
  have notin: "ps \<notin> set (f c')" if "c' < MEM_POOL_CHUNK_TYPE__COUNT E" for c'
    using f[OF that] fresh by (auto simp: class_inv_def)
  have r0: "node_inv pinv {ps} ps (r0\<lparr>m_pNextPool := x\<rparr>)" for x
    unfolding r0_def by (rule node_inv_init[OF C])
  have hd: "mem_Pools s1 c = ps" using s1 by simp
  show ?thesis unfolding hd
  proof (rule base_invI[where f = "f(c := ps # f c)"])
    show "pinv (mem_PoolForPoolHeaders s1)" using ca(1) s1 by simp
  next
    fix c' assume c': "c' < MEM_POOL_CHUNK_TYPE__COUNT E"
    show "class_inv pinv used {ps} s1 c' ((f(c := ps # f c)) c')"
    proof (cases "c' = c")
      case True
      note fc = f[OF c, unfolded class_inv_def]
      have "seg (pool_mem s1) (mem_Pools s1 c) (ps # f c) 0"
        using fc ps notin[OF c] s1 by (simp add: seg_upd_other)
      moreover have "set (ps # f c) \<subseteq> used (mem_PoolForPoolHeaders s1)"
        using fc used s1 by auto
      moreover have "\<forall>b\<in>set (ps # f c). \<forall>rb. pool_mem s1 b = Some rb \<longrightarrow> node_inv pinv {ps} b rb"
        using fc r0 s1 by (auto simp: r0_def node_inv_def)
      moreover have "sum_list (map (pool_free (pool_mem s1)) (f c)) = sum_list (map (pool_free (pool_mem s)) (f c))"
        using notin[OF c] s1 by (intro sum_free_eq) auto
      then have "mem_FreeChunksNumber s1 c = sum_list (map (pool_free (pool_mem s1)) (ps # f c))"
        using fc s1 by simp
      ultimately show ?thesis using True by (simp add: class_inv_def)
    next
      case False
      then show ?thesis
        using notin[OF c'] used s1
        by (simp del: fun_upd_apply add: fun_upd_other) (intro class_inv_frame[OF f[OF c'], where D = "{}"]; auto)
    qed
  next
    fix c1 c2
    assume cc: "c1 < MEM_POOL_CHUNK_TYPE__COUNT E" "c2 < MEM_POOL_CHUNK_TYPE__COUNT E" "c1 \<noteq> c2"
    from dj[OF cc] notin[OF cc(1)] notin[OF cc(2)] cc(3)
    show "set ((f(c := ps # f c)) c1) \<inter> set ((f(c := ps # f c)) c2) = {}" by auto
  qed
qed

lemma mem_PoolsInit_loop_all:
  "(\<forall>j. mem_Pools (mem_PoolsInit_loop i n s) j = (if i \<le> j \<and> j < n then 0 else mem_Pools s j)) \<and>
   (\<forall>j. mem_FreeChunksNumber (mem_PoolsInit_loop i n s) j =
     (if i \<le> j \<and> j < n then 0 else mem_FreeChunksNumber s j)) \<and>
   mem_PoolForPoolHeaders (mem_PoolsInit_loop i n s) = mem_PoolForPoolHeaders s \<and>
   mem_SpaceForPoolForPoolHeaders (mem_PoolsInit_loop i n s) = mem_SpaceForPoolForPoolHeaders s \<and>
   pool_mem (mem_PoolsInit_loop i n s) = pool_mem s \<and>
   heap (mem_PoolsInit_loop i n s) = heap s"
proof (induction i n s rule: mem_PoolsInit_loop.induct)
  case (1 i n s)
  show ?case
  proof (cases "i < n")
    case True
    from 1[OF True] True show ?thesis
      by (subst (1 2 3 4 5 6) mem_PoolsInit_loop.simps) auto
  next
    case False
    then show ?thesis by (subst (1 2 3 4 5 6) mem_PoolsInit_loop.simps) auto
  qed
qed

lemma mem_PoolsInit_loop_sel:
  "mem_Pools (mem_PoolsInit_loop i n s) j = (if i \<le> j \<and> j < n then 0 else mem_Pools s j)"
  "mem_FreeChunksNumber (mem_PoolsInit_loop i n s) j =
     (if i \<le> j \<and> j < n then 0 else mem_FreeChunksNumber s j)"
  "mem_PoolForPoolHeaders (mem_PoolsInit_loop i n s) = mem_PoolForPoolHeaders s"
  "mem_SpaceForPoolForPoolHeaders (mem_PoolsInit_loop i n s) = mem_SpaceForPoolForPoolHeaders s"
  "pool_mem (mem_PoolsInit_loop i n s) = pool_mem s"
  "heap (mem_PoolsInit_loop i n s) = heap s"
  using mem_PoolsInit_loop_all[of i n s] by simp_all

lemma mem_PoolsInit_Inr:
  assumes "mem_PoolsInit E s0 = Inr s"
  obtains cs space h where
    "mem_GetChunkSize E (mem_SizeToPoolChunkType E (sizeof_mem_PoolState_t E)) = Inr cs"
    "mem_HeapAllocBlock E (heap s0)
       (mem_HeapRecommendAllocationSize E (4 * sizeof_mem_PoolState_t E + sizeof_mword_t E))
       MEM_HEAP_ALLOC_LONG_TERM = (space, h)"
    "s = (mem_PoolsInit_loop 0 (MEM_POOL_CHUNK_TYPE__COUNT E) s0)
           \<lparr>mem_SpaceForPoolForPoolHeaders := space, heap := h,
             mem_PoolForPoolHeaders := mem_PoolInit E cs space
               (mem_HeapRecommendAllocationSize E (4 * sizeof_mem_PoolState_t E + sizeof_mword_t E))\<rparr>"
  using assms unfolding mem_PoolsInit_def
  by (auto simp: Let_def mem_PoolsInit_loop_sel split: prod.splits sum.splits)

lemma mem_PoolsInit_base:
  assumes C: "pool_contract E pinv used" and "mem_PoolsInit E s0 = Inr s"
  shows "base_inv E pinv used {} s"
    and "c < MEM_POOL_CHUNK_TYPE__COUNT E \<Longrightarrow> mem_Pools s c = 0 \<and> mem_FreeChunksNumber s c = 0"
proof -
  from assms(2) have *: "pinv (mem_PoolForPoolHeaders s)"
    "\<And>c. c < MEM_POOL_CHUNK_TYPE__COUNT E \<Longrightarrow> mem_Pools s c = 0 \<and> mem_FreeChunksNumber s c = 0"
    by (auto elim!: mem_PoolsInit_Inr simp: contract_init[OF C] mem_PoolsInit_loop_sel)
  from *(2) show "c < MEM_POOL_CHUNK_TYPE__COUNT E \<Longrightarrow> mem_Pools s c = 0 \<and> mem_FreeChunksNumber s c = 0" .
  show "base_inv E pinv used {} s"
    by (rule base_invI[where f = "\<lambda>_. []"]) (use * in \<open>auto simp: class_inv_def\<close>)
qed

lemma unat_Suc_less:
  fixes w v :: "'a :: len word"
  assumes "unat w < unat v"
  shows "unat (w + 1) = unat w + 1"
proof -
  have "unat v < 2 ^ LENGTH('a)" by (rule unsigned_less)
  with assms have "unat w + 1 < 2 ^ LENGTH('a)" by linarith
  then have "unat w + unat (1 :: 'a word) < 2 ^ LENGTH('a)" by (simp only: unat_1)
  then have "unat (w + 1) = unat w + unat (1 :: 'a word)" by (simp only: unat_add_lem)
  then show ?thesis by (simp only: unat_1)
qed

lemma first_owner_SomeD:
  "first_owner m p prev as = Some (a, q) \<Longrightarrow>
   \<exists>ys zs r. as = ys @ a # zs \<and> q = (if ys = [] then prev else last ys) \<and>
     m a = Some r \<and> pool_contains r p \<and>
     (\<forall>b\<in>set ys. \<forall>rb. m b = Some rb \<longrightarrow> \<not> pool_contains rb p)"
proof (induction as arbitrary: prev)
  case Nil
  then show ?case by simp
next
  case (Cons b bs)
  from Cons.prems obtain rb where rb: "m b = Some rb" by (auto split: option.splits)
  show ?case
  proof (cases "pool_contains rb p")
    case True
    with Cons.prems rb have "a = b" "q = prev" by auto
    with rb True show ?thesis by (intro exI[of _ "[]"] exI[of _ bs] exI[of _ rb]) simp
  next
    case False
    with Cons.prems rb have "first_owner m p b bs = Some (a, q)" by simp
    from Cons.IH[OF this] obtain ys zs r where
      *: "bs = ys @ a # zs" "q = (if ys = [] then b else last ys)" "m a = Some r" "pool_contains r p"
         "\<forall>b\<in>set ys. \<forall>rb. m b = Some rb \<longrightarrow> \<not> pool_contains rb p"
      by blast
    with rb False show ?thesis
      by (intro exI[of _ "b # ys"] exI[of _ zs] exI[of _ r]) auto
  qed
qed

lemma mem_PoolsFree_seg:
  assumes "unat c < MEM_POOL_CHUNK_TYPE__COUNT E" and "seg (pool_mem s) (mem_Pools s (unat c)) as 0"
  shows "mem_PoolsFree E c p s =
    (case as of
       [] \<Rightarrow> Some (Inl NullDereference)
     | _ \<Rightarrow> (case first_owner (pool_mem s) p 0 as of
               None \<Rightarrow> Some (Inl AssertionFailure)
             | Some (a, q) \<Rightarrow> (case pool_mem s a of
                  None \<Rightarrow> Some (Inl InvalidDereference)
                | Some r \<Rightarrow>
                    if m_FreeChunksNumber (mem_PoolFreeChunk E r p) = m_ChunksNumber (mem_PoolFreeChunk E r p)
                    then Some (free_pool E (unat c) a q (mem_PoolFreeChunk E r p)
                      (s\<lparr>pool_mem := (pool_mem s)(a \<mapsto> mem_PoolFreeChunk E r p),
                         mem_FreeChunksNumber := (mem_FreeChunksNumber s)(unat c := mem_FreeChunksNumber s (unat c) + 1)\<rparr>))
                    else Some (Inr
                      (s\<lparr>pool_mem := (pool_mem s)(a \<mapsto> mem_PoolFreeChunk E r p),
                         mem_FreeChunksNumber := (mem_FreeChunksNumber s)(unat c := mem_FreeChunksNumber s (unat c) + 1)\<rparr>)))))"
  using assms(1)
  by (simp add: mem_PoolsFree_def free_find_seg[OF assms(2)] Let_def split: list.splits option.splits prod.splits)

lemma free_ok_seg:
  assumes "seg (pool_mem s) (mem_Pools s c) as 0" and "free_ok used c p s"
  obtains a q r where "first_owner (pool_mem s) p 0 as = Some (a, q)" "pool_mem s a = Some r" "p \<in> used r"
  using assms(2) unfolding free_ok_def free_find_seg[OF assms(1)]
  by (auto split: list.splits option.splits)

lemma seg_unlink_head:
  assumes "seg m h (a # zs) 0" and "m a = Some r"
  shows "seg (m(a \<mapsto> r')) (m_pNextPool r) zs 0"
proof -
  from path_distinct[OF assms(1)] have "a \<notin> set zs" by simp
  with assms show ?thesis by (simp add: seg_upd_other)
qed

lemma seg_unlink_mid:
  assumes "seg m h (ys @ q # a # zs) 0" and "m a = Some r"
  obtains rp where "m q = Some rp"
    and "seg ((m(a \<mapsto> r'))(q \<mapsto> rp\<lparr>m_pNextPool := m_pNextPool r\<rparr>)) h (ys @ q # zs) 0"
proof -
  from path_distinct[OF assms(1)]
  have d: "a \<notin> set ys" "q \<notin> set ys" "a \<notin> set zs" "q \<notin> set zs" "q \<noteq> a" by auto
  from assms(1) obtain rp where 1: "seg m h ys q" and q: "q \<noteq> 0" "m q = Some rp"
    and 2: "seg m (m_pNextPool rp) (a # zs) 0"
    by (auto simp: seg_append split: option.splits)
  from 2 assms(2) have 3: "seg m (m_pNextPool r) zs 0" by simp
  let ?m = "(m(a \<mapsto> r'))(q \<mapsto> rp\<lparr>m_pNextPool := m_pNextPool r\<rparr>)"
  from 1 d have "seg ?m h ys q" by (simp add: seg_upd_other)
  moreover from 3 d q have "seg ?m q (q # zs) 0" by (simp add: seg_upd_other)
  ultimately have "seg ?m h (ys @ q # zs) 0" by (auto simp: seg_append)
  with q(2) show thesis by (rule that)
qed

lemma free_pool_head:
  "free_pool E c a 0 r s =
     Inr (s\<lparr>mem_Pools := (mem_Pools s)(c := m_pNextPool r),
            mem_FreeChunksNumber := (mem_FreeChunksNumber s)(c := mem_FreeChunksNumber s c - m_ChunksNumber r),
            heap := mem_HeapFreeBlock E (heap s) (m_pPoolStart r),
            mem_PoolForPoolHeaders := mem_PoolFreeChunk E (mem_PoolForPoolHeaders s) a\<rparr>)"
  by (simp add: free_pool_def)

lemma free_pool_mid:
  "q \<noteq> 0 \<Longrightarrow> pool_mem s q = Some rp \<Longrightarrow>
   free_pool E c a q r s =
     Inr (s\<lparr>pool_mem := (pool_mem s)(q \<mapsto> rp\<lparr>m_pNextPool := m_pNextPool r\<rparr>),
            mem_FreeChunksNumber := (mem_FreeChunksNumber s)(c := mem_FreeChunksNumber s c - m_ChunksNumber r),
            heap := mem_HeapFreeBlock E (heap s) (m_pPoolStart r),
            mem_PoolForPoolHeaders := mem_PoolFreeChunk E (mem_PoolForPoolHeaders s) a\<rparr>)"
  by (simp add: free_pool_def)

lemma case_list_ne: "as \<noteq> [] \<Longrightarrow> (case as of [] \<Rightarrow> x | _ # _ \<Rightarrow> y) = y"
  by (cases as) auto

lemma free_step:
  assumes c: "unat c < MEM_POOL_CHUNK_TYPE__COUNT E" and ok: "free_ok used (unat c) p s"
    and sg: "seg (pool_mem s) (mem_Pools s (unat c)) as 0"
  obtains ys zs a q r where
    "as = ys @ a # zs" "q = (if ys = [] then 0 else last ys)" "pool_mem s a = Some r" "p \<in> used r"
    "first_owner (pool_mem s) p 0 as = Some (a, q)"
    "mem_PoolsFree E c p s =
       (if m_FreeChunksNumber (mem_PoolFreeChunk E r p) = m_ChunksNumber (mem_PoolFreeChunk E r p)
        then Some (free_pool E (unat c) a q (mem_PoolFreeChunk E r p)
               (s\<lparr>pool_mem := (pool_mem s)(a \<mapsto> mem_PoolFreeChunk E r p),
                  mem_FreeChunksNumber := (mem_FreeChunksNumber s)(unat c := mem_FreeChunksNumber s (unat c) + 1)\<rparr>))
        else Some (Inr
               (s\<lparr>pool_mem := (pool_mem s)(a \<mapsto> mem_PoolFreeChunk E r p),
                  mem_FreeChunksNumber := (mem_FreeChunksNumber s)(unat c := mem_FreeChunksNumber s (unat c) + 1)\<rparr>)))"
proof -
  from sg ok obtain a q r where fo: "first_owner (pool_mem s) p 0 as = Some (a, q)"
    and r: "pool_mem s a = Some r" "p \<in> used r"
    by (rule free_ok_seg)
  from first_owner_SomeD[OF fo] obtain ys zs where
    as: "as = ys @ a # zs" "q = (if ys = [] then 0 else last ys)" by blast
  show thesis
  proof (rule that[OF as r fo])
    from as(1) have "as \<noteq> []" by simp
    then show "mem_PoolsFree E c p s =
       (if m_FreeChunksNumber (mem_PoolFreeChunk E r p) = m_ChunksNumber (mem_PoolFreeChunk E r p)
        then Some (free_pool E (unat c) a q (mem_PoolFreeChunk E r p)
               (s\<lparr>pool_mem := (pool_mem s)(a \<mapsto> mem_PoolFreeChunk E r p),
                  mem_FreeChunksNumber := (mem_FreeChunksNumber s)(unat c := mem_FreeChunksNumber s (unat c) + 1)\<rparr>))
        else Some (Inr
               (s\<lparr>pool_mem := (pool_mem s)(a \<mapsto> mem_PoolFreeChunk E r p),
                  mem_FreeChunksNumber := (mem_FreeChunksNumber s)(unat c := mem_FreeChunksNumber s (unat c) + 1)\<rparr>)))"
      unfolding mem_PoolsFree_seg[OF c sg] using fo r(1) by (simp add: case_list_ne)
  qed
qed

lemma node_inv_free:
  assumes C: "pool_contract E pinv used" and n: "node_inv pinv X a r" and p: "p \<in> used r"
    and nf: "m_FreeChunksNumber (mem_PoolFreeChunk E r p) \<noteq> m_ChunksNumber (mem_PoolFreeChunk E r p)"
  shows "node_inv pinv Y a (mem_PoolFreeChunk E r p)"
proof -
  from n have pr: "pinv r" by (simp add: node_inv_def)
  note cf = contract_free[OF C pr p]
  from cf(3) have sp: "m_ChunksNumber (mem_PoolFreeChunk E r p) = m_ChunksNumber r"
    by (simp add: same_pool_def)
  from unat_Suc_less[OF cf(1)] cf(1,5) sp
  have "unat (m_FreeChunksNumber (mem_PoolFreeChunk E r p)) \<le> unat (m_ChunksNumber (mem_PoolFreeChunk E r p))"
    by simp
  with cf(2) nf show ?thesis by (simp add: node_inv_def idle_pool_def)
qed

text \<open>The state after a release that does not give the pool back.\<close>

lemma release_base:
  assumes C: "pool_contract E pinv used" and I: "base_inv E pinv used {} s"
    and c: "c < MEM_POOL_CHUNK_TYPE__COUNT E"
    and sg: "seg (pool_mem s) (mem_Pools s c) as 0" and a: "a \<in> set as"
    and r: "pool_mem s a = Some r" "p \<in> used r"
    and nf: "m_FreeChunksNumber (mem_PoolFreeChunk E r p) \<noteq> m_ChunksNumber (mem_PoolFreeChunk E r p)"
  shows "base_inv E pinv used {}
           (s\<lparr>pool_mem := (pool_mem s)(a \<mapsto> mem_PoolFreeChunk E r p),
              mem_FreeChunksNumber := (mem_FreeChunksNumber s)(c := mem_FreeChunksNumber s c + 1)\<rparr>)"
    (is "base_inv E pinv used {} ?s'")
proof -
  from I obtain f where hp: "pinv (mem_PoolForPoolHeaders s)"
    and f: "\<And>c. c < MEM_POOL_CHUNK_TYPE__COUNT E \<Longrightarrow> class_inv pinv used {} s c (f c)"
    and dj: "\<And>c c'. c < MEM_POOL_CHUNK_TYPE__COUNT E \<Longrightarrow> c' < MEM_POOL_CHUNK_TYPE__COUNT E \<Longrightarrow> c \<noteq> c' \<Longrightarrow>
           set (f c) \<inter> set (f c') = {}"
    by (rule base_invD) (rule that)
  note fc = f[OF c, unfolded class_inv_def]
  from fc sg have as: "f c = as" by (auto dest: path_unique)
  from fc a r as have nr: "node_inv pinv {} a r" by auto
  then have pr: "pinv r" by (simp add: node_inv_def)
  note cf = contract_free[OF C pr r(2)]
  let ?r' = "mem_PoolFreeChunk E r p"
  from cf(3) have sp: "m_pNextPool ?r' = m_pNextPool r" by (auto simp: same_pool_def)
  show ?thesis
  proof (rule base_invI[where f = f])
    show "pinv (mem_PoolForPoolHeaders ?s')" using hp by simp
  next
    fix c' assume c': "c' < MEM_POOL_CHUNK_TYPE__COUNT E"
    show "class_inv pinv used {} ?s' c' (f c')"
    proof (cases "c' = c")
      case True
      have "seg (pool_mem ?s') (mem_Pools ?s' c) as 0"
        using sg by (simp add: seg_upd_link[where m = "pool_mem s", OF r(1) sp(1)])
      moreover have "set as \<subseteq> used (mem_PoolForPoolHeaders ?s')" using fc as by simp
      moreover have "\<forall>b\<in>set as. \<forall>rb. pool_mem ?s' b = Some rb \<longrightarrow> node_inv pinv {} b rb"
        using fc as node_inv_free[OF C nr r(2) nf] by auto
      moreover have "mem_FreeChunksNumber ?s' c = sum_list (map (pool_free (pool_mem ?s')) as)"
        using fc as cf(5) r by (simp add: sum_free_upd[OF path_distinct[OF sg] a] pool_free_Some)
      ultimately show ?thesis using True as by (simp add: class_inv_def)
    next
      case False
      with dj[OF c c'] a as have "a \<notin> set (f c')" by auto
      then show ?thesis
        using False by (intro class_inv_frame[OF f[OF c'], where D = "{}"]) auto
    qed
  next
    fix c1 c2
    assume "c1 < MEM_POOL_CHUNK_TYPE__COUNT E" "c2 < MEM_POOL_CHUNK_TYPE__COUNT E" "c1 \<noteq> c2"
    then show "set (f c1) \<inter> set (f c2) = {}" by (rule dj)
  qed
qed

text \<open>The state after the pool at \<open>a\<close> has been taken out of the chain of class \<open>c\<close>.\<close>

lemma unlink_base:
  assumes C: "pool_contract E pinv used" and I: "base_inv E pinv used {} s"
    and c: "c < MEM_POOL_CHUNK_TYPE__COUNT E"
    and sg: "seg (pool_mem s) (mem_Pools s c) (ys @ a # zs) 0"
    and r: "pool_mem s a = Some r"
    and sg': "seg m' h' (ys @ zs) 0"
    and same: "\<forall>b\<in>set (ys @ zs). pool_free m' b = pool_free (pool_mem s) b \<and>
                 (\<forall>rb. m' b = Some rb \<longrightarrow> node_inv pinv {} b rb)"
    and other: "\<forall>b. b \<notin> set (ys @ a # zs) \<longrightarrow> m' b = pool_mem s b"
    and n: "n = mem_FreeChunksNumber s c - m_FreeChunksNumber r"
  shows "base_inv E pinv used {}
           (s\<lparr>pool_mem := m', mem_Pools := (mem_Pools s)(c := h'),
              mem_FreeChunksNumber := (mem_FreeChunksNumber s)(c := n),
              heap := h, mem_PoolForPoolHeaders := mem_PoolFreeChunk E (mem_PoolForPoolHeaders s) a\<rparr>)"
    (is "base_inv E pinv used {} ?s'")
proof -
  from I obtain f where hp: "pinv (mem_PoolForPoolHeaders s)"
    and f: "\<And>c. c < MEM_POOL_CHUNK_TYPE__COUNT E \<Longrightarrow> class_inv pinv used {} s c (f c)"
    and dj: "\<And>c c'. c < MEM_POOL_CHUNK_TYPE__COUNT E \<Longrightarrow> c' < MEM_POOL_CHUNK_TYPE__COUNT E \<Longrightarrow> c \<noteq> c' \<Longrightarrow>
           set (f c) \<inter> set (f c') = {}"
    by (rule base_invD) (rule that)
  note fc = f[OF c, unfolded class_inv_def]
  from fc sg have as: "f c = ys @ a # zs" by (auto dest: path_unique)
  from path_distinct[OF sg] have d: "a \<notin> set (ys @ zs)" by auto
  from fc as have "a \<in> used (mem_PoolForPoolHeaders s)" by auto
  note cf = contract_free[OF C hp this]
  have sum: "sum_list (map (pool_free m') (ys @ zs)) = sum_list (map (pool_free (pool_mem s)) (ys @ zs))"
    using same by (intro sum_free_eq) blast
  show ?thesis
  proof (rule base_invI[where f = "f(c := ys @ zs)"])
    show "pinv (mem_PoolForPoolHeaders ?s')" using cf(2) by simp
  next
    fix c' assume c': "c' < MEM_POOL_CHUNK_TYPE__COUNT E"
    show "class_inv pinv used {} ?s' c' ((f(c := ys @ zs)) c')"
    proof (cases "c' = c")
      case True
      have "seg (pool_mem ?s') (mem_Pools ?s' c) (ys @ zs) 0" using sg' by simp
      moreover have "set (ys @ zs) \<subseteq> used (mem_PoolForPoolHeaders ?s')"
        using fc as d cf(4) by auto
      moreover have "\<forall>b\<in>set (ys @ zs). \<forall>rb. pool_mem ?s' b = Some rb \<longrightarrow> node_inv pinv {} b rb"
        using same by simp
      moreover have "mem_FreeChunksNumber ?s' c = sum_list (map (pool_free (pool_mem ?s')) (ys @ zs))"
        using fc as r n sum by (simp add: pool_free_Some)
      ultimately show ?thesis using True by (simp add: class_inv_def)
    next
      case False
      from dj[OF c c' False[symmetric]] as have nin: "\<forall>b\<in>set (f c'). b \<notin> set (ys @ a # zs)" by auto
      with other have "\<forall>b\<in>set (f c'). m' b = pool_mem s b" by blast
      moreover from nin have "set (f c') \<inter> {a} = {}" by auto
      ultimately have "class_inv pinv used {} ?s' c' (f c')"
        using False cf(4) by (intro class_inv_frame[OF f[OF c'], where D = "{a}"]) auto
      with False show ?thesis by simp
    qed
  next
    fix c1 c2
    assume cc: "c1 < MEM_POOL_CHUNK_TYPE__COUNT E" "c2 < MEM_POOL_CHUNK_TYPE__COUNT E" "c1 \<noteq> c2"
    from dj[OF cc] dj[OF cc(1) c] dj[OF c cc(2)] as cc(3)
    show "set ((f(c := ys @ zs)) c1) \<inter> set ((f(c := ys @ zs)) c2) = {}"
      by (cases "c1 = c"; cases "c2 = c") auto
  qed
qed

lemma consolidate_base:
  assumes C: "pool_contract E pinv used" and I: "base_inv E pinv used {} s"
    and c: "c < MEM_POOL_CHUNK_TYPE__COUNT E"
    and sg: "seg (pool_mem s) (mem_Pools s c) (ys @ a # zs) 0"
    and r: "pool_mem s a = Some r" "p \<in> used r"
    and q: "q = (if ys = [] then 0 else last ys)"
    and full: "m_FreeChunksNumber (mem_PoolFreeChunk E r p) = m_ChunksNumber (mem_PoolFreeChunk E r p)"
  obtains s' where
    "free_pool E c a q (mem_PoolFreeChunk E r p)
       (s\<lparr>pool_mem := (pool_mem s)(a \<mapsto> mem_PoolFreeChunk E r p),
          mem_FreeChunksNumber := (mem_FreeChunksNumber s)(c := mem_FreeChunksNumber s c + 1)\<rparr>) = Inr s'"
    "base_inv E pinv used {} s'"
    "seg (pool_mem s') (mem_Pools s' c) (ys @ zs) 0"
    "mem_FreeChunksNumber s' = (mem_FreeChunksNumber s)(c := mem_FreeChunksNumber s c + 1 - m_ChunksNumber r)"
    "heap s' = mem_HeapFreeBlock E (heap s) (m_pPoolStart r)"
    "mem_PoolForPoolHeaders s' = mem_PoolFreeChunk E (mem_PoolForPoolHeaders s) a"
    "\<forall>b. b \<notin> set (ys @ a # zs) \<longrightarrow> pool_mem s' b = pool_mem s b"
    "\<forall>c'. c' \<noteq> c \<longrightarrow> mem_Pools s' c' = mem_Pools s c'"
    "ys = [] \<longrightarrow> mem_Pools s' c = m_pNextPool r"
    "ys \<noteq> [] \<longrightarrow> mem_Pools s' c = mem_Pools s c \<and>
       (\<exists>rp. pool_mem s q = Some rp \<and> pool_mem s' q = Some (rp\<lparr>m_pNextPool := m_pNextPool r\<rparr>))"
    "mem_SpaceForPoolForPoolHeaders s' = mem_SpaceForPoolForPoolHeaders s"
proof -
  let ?r' = "mem_PoolFreeChunk E r p"
  let ?s1 = "s\<lparr>pool_mem := (pool_mem s)(a \<mapsto> ?r'),
          mem_FreeChunksNumber := (mem_FreeChunksNumber s)(c := mem_FreeChunksNumber s c + 1)\<rparr>"
  from I obtain f where hp: "pinv (mem_PoolForPoolHeaders s)"
    and f: "\<And>c. c < MEM_POOL_CHUNK_TYPE__COUNT E \<Longrightarrow> class_inv pinv used {} s c (f c)"
    and dj: "\<And>c c'. c < MEM_POOL_CHUNK_TYPE__COUNT E \<Longrightarrow> c' < MEM_POOL_CHUNK_TYPE__COUNT E \<Longrightarrow> c \<noteq> c' \<Longrightarrow>
           set (f c) \<inter> set (f c') = {}"
    by (rule base_invD) (rule that)
  note fc = f[OF c, unfolded class_inv_def]
  from fc sg have as: "f c = ys @ a # zs" by (auto dest: path_unique)
  from fc as have nodes: "\<forall>b\<in>set (ys @ a # zs). \<forall>rb. pool_mem s b = Some rb \<longrightarrow> node_inv pinv {} b rb"
    by simp
  with r have pr: "pinv r" by (simp add: node_inv_def)
  note cf = contract_free[OF C pr r(2)]
  from cf(3) have sp: "m_pNextPool ?r' = m_pNextPool r" "m_ChunksNumber ?r' = m_ChunksNumber r"
    "m_pPoolStart ?r' = m_pPoolStart r"
    by (auto simp: same_pool_def)
  from full cf(5) sp have t: "m_ChunksNumber r = m_FreeChunksNumber r + 1" by simp
  have n: "mem_FreeChunksNumber s c + 1 - m_ChunksNumber r =
      mem_FreeChunksNumber s c - m_FreeChunksNumber r" unfolding t by simp
  from path_distinct[OF sg] have d: "a \<notin> set (ys @ zs)" "distinct (ys @ zs)" by auto
  show thesis
  proof (cases "ys = []")
    case True
    let ?m' = "(pool_mem s)(a \<mapsto> ?r')"
    from True q have q0: "q = 0" by simp
    from sg True r have sg': "seg ?m' (m_pNextPool r) (ys @ zs) 0"
      by (simp add: seg_unlink_head)
    have same: "\<forall>b\<in>set (ys @ zs). pool_free ?m' b = pool_free (pool_mem s) b \<and>
                 (\<forall>rb. ?m' b = Some rb \<longrightarrow> node_inv pinv {} b rb)"
      using d nodes by auto
    have other: "\<forall>b. b \<notin> set (ys @ a # zs) \<longrightarrow> ?m' b = pool_mem s b" by simp
    note B = unlink_base[where m' = ?m' and h = "mem_HeapFreeBlock E (heap s) (m_pPoolStart r)",
        OF C I c sg r(1) sg' same other n]
    show ?thesis
      by (rule that[OF free_pool_head[of E c a ?r' ?s1, unfolded q0[symmetric]]])
         (use B sp n sg' True in \<open>simp_all add: n\<close>)
  next
    case False
    then obtain ys' where ys: "ys = ys' @ [q]" using q by (metis append_butlast_last_id)
    from sg ys have sgq: "seg (pool_mem s) (mem_Pools s c) (ys' @ q # a # zs) 0" by simp
    from path_distinct[OF sgq] have qa: "q \<noteq> a" "q \<notin> set ys'" "q \<notin> set zs" by auto
    from seg_mem[OF sgq, of q] have q0: "q \<noteq> 0" by simp
    from sgq r(1) obtain rp where rp: "pool_mem s q = Some rp"
      and sg2: "seg (((pool_mem s)(a \<mapsto> ?r'))(q \<mapsto> rp\<lparr>m_pNextPool := m_pNextPool r\<rparr>))
                  (mem_Pools s c) (ys' @ q # zs) 0"
      by (rule seg_unlink_mid)
    let ?m' = "((pool_mem s)(a \<mapsto> ?r'))(q \<mapsto> rp\<lparr>m_pNextPool := m_pNextPool r\<rparr>)"
    from sg2 ys have sg': "seg ?m' (mem_Pools s c) (ys @ zs) 0" by simp
    from nodes rp ys have "node_inv pinv {} q rp" by auto
    from node_inv_link[OF C this]
    have same: "\<forall>b\<in>set (ys @ zs). pool_free ?m' b = pool_free (pool_mem s) b \<and>
                 (\<forall>rb. ?m' b = Some rb \<longrightarrow> node_inv pinv {} b rb)"
      using d nodes rp by (auto simp: pool_free_Some)
    have other: "\<forall>b. b \<notin> set (ys @ a # zs) \<longrightarrow> ?m' b = pool_mem s b" using ys by simp
    note B = unlink_base[where m' = ?m' and h = "mem_HeapFreeBlock E (heap s) (m_pPoolStart r)",
        OF C I c sg r(1) sg' same other n]
    have fp: "free_pool E c a q ?r' ?s1 =
       Inr (?s1\<lparr>pool_mem := (pool_mem ?s1)(q \<mapsto> rp\<lparr>m_pNextPool := m_pNextPool ?r'\<rparr>),
            mem_FreeChunksNumber := (mem_FreeChunksNumber ?s1)(c := mem_FreeChunksNumber ?s1 c - m_ChunksNumber ?r'),
            heap := mem_HeapFreeBlock E (heap ?s1) (m_pPoolStart ?r'),
            mem_PoolForPoolHeaders := mem_PoolFreeChunk E (mem_PoolForPoolHeaders ?s1) a\<rparr>)"
      using q0 rp qa by (intro free_pool_mid) simp_all
    show ?thesis
      by (rule that[OF fp])
         (use B sp n sg' False rp qa ys in \<open>simp_all add: n fun_upd_idem\<close>)
  qed
qed

lemma mem_GetChunkSize_Inr:
  "mem_GetChunkSize E c = Inr cs \<Longrightarrow> unat c < MEM_POOL_CHUNK_TYPE__COUNT E"
  by (auto simp: mem_GetChunkSize_def Let_def split: if_splits)

lemma alloc_from_cases:
  assumes "alloc_from E c s = Some (Inr (a, p, s'))"
  obtains (take) cs where "mem_GetChunkSize E c = Inr cs" "mem_FreeChunksNumber s (unat c) \<noteq> 0"
      "alloc_take E (unat c) s = Some (Inr (a, p, s'))"
  | (fail) cs where "mem_GetChunkSize E c = Inr cs" "mem_FreeChunksNumber s (unat c) = 0"
      "alloc_grow E (unat c) cs s = Inr (Inl (p, s'))" "a = 0"
  | (grow) cs s1 where "mem_GetChunkSize E c = Inr cs" "mem_FreeChunksNumber s (unat c) = 0"
      "alloc_grow E (unat c) cs s = Inr (Inr s1)" "alloc_take E (unat c) s1 = Some (Inr (a, p, s'))"
  using assms unfolding alloc_from_def
  by (auto split: sum.splits if_splits)

lemma alloc_from_pools_inv:
  assumes C: "pool_contract E pinv used" and I: "pools_inv E pinv used s"
    and A: "alloc_from E c s = Some (Inr (a, p, s'))"
  shows "pools_inv E pinv used s'"
proof -
  from I have B: "base_inv E pinv used {} s" by (simp add: pools_inv_def)
  from A show ?thesis
  proof (cases rule: alloc_from_cases)
    case (take cs)
    from take(1) have c: "unat c < MEM_POOL_CHUNK_TYPE__COUNT E" by (rule mem_GetChunkSize_Inr)
    from alloc_take_base[OF C B _ c take(3)] show ?thesis by (simp add: pools_inv_def)
  next
    case (fail cs)
    from alloc_grow_Inl_base[OF C B fail(3)] show ?thesis by (simp add: pools_inv_def)
  next
    case (grow cs s1)
    from grow(1) have c: "unat c < MEM_POOL_CHUNK_TYPE__COUNT E" by (rule mem_GetChunkSize_Inr)
    from alloc_grow_Inr_base[OF C B c grow(3)]
    have "base_inv E pinv used {mem_Pools s1 (unat c)} s1" .
    from alloc_take_base[OF C this _ c grow(4)] show ?thesis by (simp add: pools_inv_def)
  qed
qed

lemma mem_PoolsAlloc_SomeD:
  assumes "mem_PoolsAlloc E c s = Some (Inr (p, s'))"
  obtains a where "alloc_from E c s = Some (Inr (a, p, s'))"
  using assms by (auto simp: mem_PoolsAlloc_def split: option.splits sum.splits)

lemma mem_PoolsAlloc_pools_inv:
  assumes C: "pool_contract E pinv used" and I: "pools_inv E pinv used s"
    and A: "mem_PoolsAlloc E c s = Some (Inr (p, s'))"
  shows "pools_inv E pinv used s'"
  using A by (rule mem_PoolsAlloc_SomeD) (rule alloc_from_pools_inv[OF C I])

lemma mem_PoolsFree_bound:
  "mem_PoolsFree E c p s = Some (Inr s') \<Longrightarrow> unat c < MEM_POOL_CHUNK_TYPE__COUNT E"
  by (auto simp: mem_PoolsFree_def split: if_splits)

lemma pools_inv_seg:
  assumes "pools_inv E pinv used s" and "c < MEM_POOL_CHUNK_TYPE__COUNT E"
  obtains as where "class_inv pinv used {} s c as" "seg (pool_mem s) (mem_Pools s c) as 0"
  using assms unfolding pools_inv_def base_inv_def class_inv_def by blast

lemma mem_PoolsFree_pools_inv:
  assumes C: "pool_contract E pinv used" and I: "pools_inv E pinv used s"
    and ok: "free_ok used (unat c) p s"
    and F: "mem_PoolsFree E c p s = Some (Inr s')"
  shows "pools_inv E pinv used s'"
proof -
  from F have c: "unat c < MEM_POOL_CHUNK_TYPE__COUNT E" by (rule mem_PoolsFree_bound)
  from I have B: "base_inv E pinv used {} s" by (simp add: pools_inv_def)
  from I c obtain as where sg: "seg (pool_mem s) (mem_Pools s (unat c)) as 0"
    by (rule pools_inv_seg)
  from c ok sg obtain ys zs a q r where as: "as = ys @ a # zs"
    and q: "q = (if ys = [] then 0 else last ys)"
    and r: "pool_mem s a = Some r" "p \<in> used r"
    and step: "mem_PoolsFree E c p s =
       (if m_FreeChunksNumber (mem_PoolFreeChunk E r p) = m_ChunksNumber (mem_PoolFreeChunk E r p)
        then Some (free_pool E (unat c) a q (mem_PoolFreeChunk E r p)
               (s\<lparr>pool_mem := (pool_mem s)(a \<mapsto> mem_PoolFreeChunk E r p),
                  mem_FreeChunksNumber := (mem_FreeChunksNumber s)(unat c := mem_FreeChunksNumber s (unat c) + 1)\<rparr>))
        else Some (Inr
               (s\<lparr>pool_mem := (pool_mem s)(a \<mapsto> mem_PoolFreeChunk E r p),
                  mem_FreeChunksNumber := (mem_FreeChunksNumber s)(unat c := mem_FreeChunksNumber s (unat c) + 1)\<rparr>)))"
    by (rule free_step)
  show ?thesis
  proof (cases "m_FreeChunksNumber (mem_PoolFreeChunk E r p) = m_ChunksNumber (mem_PoolFreeChunk E r p)")
    case True
    from sg as have sg': "seg (pool_mem s) (mem_Pools s (unat c)) (ys @ a # zs) 0" by simp
    from C B c sg' r q True obtain s'' where
      "free_pool E (unat c) a q (mem_PoolFreeChunk E r p)
       (s\<lparr>pool_mem := (pool_mem s)(a \<mapsto> mem_PoolFreeChunk E r p),
          mem_FreeChunksNumber := (mem_FreeChunksNumber s)(unat c := mem_FreeChunksNumber s (unat c) + 1)\<rparr>) = Inr s''"
      "base_inv E pinv used {} s''"
      by (rule consolidate_base)
    with F step True show ?thesis by (simp add: pools_inv_def)
  next
    case False
    from as have "a \<in> set as" by simp
    from release_base[OF C B c sg this r False] F step False
    show ?thesis by (simp add: pools_inv_def)
  qed
qed

lemma reachable_pools_inv:
  assumes C: "pool_contract E pinv used" and "reachable E used s"
  shows "pools_inv E pinv used s"
  using assms(2)
proof (induction rule: reachable.induct)
  case (reach_init s0 s)
  then show ?case using mem_PoolsInit_base(1)[OF C] by (simp add: pools_inv_def)
next
  case (reach_alloc s c p s')
  then show ?case using mem_PoolsAlloc_pools_inv[OF C] by blast
next
  case (reach_free s c p s')
  then show ?case using mem_PoolsFree_pools_inv[OF C] by blast
qed

lemma unat_sum_list:
  fixes ws :: "'a :: len word list"
  shows "sum_list (map unat ws) < 2 ^ LENGTH('a) \<Longrightarrow> unat (sum_list ws) = sum_list (map unat ws)"
proof (induction ws)
  case Nil
  then show ?case by simp
next
  case (Cons w ws)
  then have "sum_list (map unat ws) < 2 ^ LENGTH('a)" by simp
  with Cons have "unat (sum_list ws) = sum_list (map unat ws)" by simp
  with Cons.prems show ?case by (simp add: unat_add_lem[THEN iffD1])
qed

section \<open>The instance meets the contract\<close>

lemma simple_env_sel:
  "MEM_POOL_CHUNK_TYPE__COUNT simple_env = 4"
  "sizeof_mem_PoolState_t simple_env = 32"
  "sizeof_mword_t simple_env = 4"
  "mem_SizeToPoolChunkType simple_env = simple_SizeToPoolChunkType"
  "mem_HeapRecommendAllocationSize simple_env = (\<lambda>sz. sz)"
  "mem_HeapAllocBlock simple_env = simple_HeapAllocBlock"
  "mem_HeapFreeBlock simple_env = (\<lambda>h p. h)"
  "mem_PoolInit simple_env = simple_PoolInit"
  "mem_PoolAllocChunk simple_env = simple_PoolAllocChunk"
  "mem_PoolFreeChunk simple_env = simple_PoolFreeChunk"
  by (simp_all add: simple_env_def)

lemma simple_chunk_sizes:
  "mem_GetChunkSize simple_env 0 = Inr 4" "mem_GetChunkSize simple_env 1 = Inr 8"
  "mem_GetChunkSize simple_env 2 = Inr 16" "mem_GetChunkSize simple_env 3 = Inr 32"
  by (simp_all add: mem_GetChunkSize_def simple_env_sel)

lemma const_upd: "(\<lambda>_. c)(x := c) = (\<lambda>_. c)"
  by auto

lemma simple_PoolInit_header:
  "simple_PoolInit 32 0x1000 132 =
     \<lparr>m_pPoolStart = 0x1000, m_PoolSize = 132, m_pChunks = 0x1004, m_ChunksNumber = 4,
      m_FreeChunksNumber = 4, m_pNextPool = 0, \<dots> = ([0x1004, 0x1024, 0x1044, 0x1064], [])\<rparr>"
  by code_simp

lemma simple_PoolInit_class0:
  "simple_PoolInit 4 0x1084 36 =
     \<lparr>m_pPoolStart = 0x1084, m_PoolSize = 36, m_pChunks = 0x1088, m_ChunksNumber = 8,
      m_FreeChunksNumber = 8, m_pNextPool = 0,
      \<dots> = ([0x1088, 0x108C, 0x1090, 0x1094, 0x1098, 0x109C, 0x10A0, 0x10A4], [])\<rparr>"
  by code_simp

lemma init_run: "mem_PoolsInit simple_env (start_state 0x1000 0x2000) = Inr after_init"
  by (simp add: mem_PoolsInit_def mem_PoolsInit_loop.simps simple_env_sel start_state_def
      after_init_def simple_HeapAllocBlock_def simple_SizeToPoolChunkType_def
      simple_chunk_sizes simple_PoolInit_header Let_def const_upd)

lemma alloc_run: "mem_PoolsAlloc simple_env 0 after_init = Some (Inr (0x1088, after_alloc))"
  by (simp add: mem_PoolsAlloc_def alloc_from_def alloc_grow_def alloc_take_def alloc_find.simps
      simple_chunk_sizes after_init_def after_alloc_def simple_env_sel
      simple_HeapAllocBlock_def simple_PoolAllocChunk_def simple_PoolInit_class0 Let_def)

lemma tight_run: "mem_PoolsInit simple_env (start_state 0x1000 0x1084) = Inr tight_init"
  by (simp add: mem_PoolsInit_def mem_PoolsInit_loop.simps simple_env_sel start_state_def
      tight_init_def simple_HeapAllocBlock_def simple_SizeToPoolChunkType_def
      simple_chunk_sizes simple_PoolInit_header Let_def const_upd)

lemma simple_PoolInit_null:
  "simple_PoolInit 32 0 132 =
     \<lparr>m_pPoolStart = 0, m_PoolSize = 132, m_pChunks = 4, m_ChunksNumber = 4,
      m_FreeChunksNumber = 4, m_pNextPool = 0, \<dots> = ([4, 0x24, 0x44, 0x64], [])\<rparr>"
  by code_simp

lemma failed_run: "mem_PoolsInit simple_env (start_state 0x1000 0x1080) = Inr failed_init"
  by (simp add: mem_PoolsInit_def mem_PoolsInit_loop.simps simple_env_sel start_state_def
      failed_init_def simple_HeapAllocBlock_def simple_SizeToPoolChunkType_def
      simple_chunk_sizes simple_PoolInit_null Let_def const_upd)

lemma second_run: "mem_PoolsAlloc simple_env 0 after_alloc = Some (Inr (0x108C, after_second))"
  by (simp add: mem_PoolsAlloc_def alloc_from_def alloc_take_def alloc_find.simps
      simple_chunk_sizes after_alloc_def after_second_def simple_env_sel
      simple_PoolAllocChunk_def Let_def)

lemma free_run: "mem_PoolsFree simple_env 0 0x1088 after_alloc = Some (Inr after_free)"
  by (simp add: mem_PoolsFree_def free_find.simps free_pool_def pool_contains_def
      after_alloc_def after_free_def simple_env_sel simple_PoolFreeChunk_def Let_def const_upd)

lemma unfree_run: "mem_PoolsFree simple_env 0 0x108C after_second = Some (Inr after_alloc)"
  by (simp add: mem_PoolsFree_def free_find.simps pool_contains_def
      after_alloc_def after_second_def simple_env_sel simple_PoolFreeChunk_def Let_def)

lemma alloc_from_run: "alloc_from simple_env 0 after_init = Some (Inr (0x1004, 0x1088, after_alloc))"
  by (simp add: alloc_from_def alloc_grow_def alloc_take_def alloc_find.simps
      simple_chunk_sizes after_init_def after_alloc_def simple_env_sel
      simple_HeapAllocBlock_def simple_PoolAllocChunk_def simple_PoolInit_class0 Let_def)

lemma second_from_run:
  "alloc_from simple_env 0 after_alloc = Some (Inr (0x1004, 0x108C, after_second))"
  by (simp add: alloc_from_def alloc_take_def alloc_find.simps
      simple_chunk_sizes after_alloc_def after_second_def simple_env_sel
      simple_PoolAllocChunk_def Let_def)

lemma simple_PoolInit_class1:
  "simple_PoolInit 8 0x10A8 68 =
     \<lparr>m_pPoolStart = 0x10A8, m_PoolSize = 68, m_pChunks = 0x10AC, m_ChunksNumber = 8,
      m_FreeChunksNumber = 8, m_pNextPool = 0,
      \<dots> = ([0x10AC, 0x10B4, 0x10BC, 0x10C4, 0x10CC, 0x10D4, 0x10DC, 0x10E4], [])\<rparr>"
  by code_simp

lemma other_run: "mem_PoolsAlloc simple_env 1 after_alloc = Some (Inr (0x10AC, after_other))"
  by (simp add: mem_PoolsAlloc_def alloc_from_def alloc_grow_def alloc_take_def alloc_find.simps
      simple_chunk_sizes after_alloc_def after_other_def simple_env_sel
      simple_HeapAllocBlock_def simple_PoolAllocChunk_def simple_PoolInit_class1 Let_def)

lemma free_ok_first: "free_ok simple_used (unat (0 :: 32 word)) 0x1088 after_alloc"
  by (simp add: free_ok_def free_find.simps pool_contains_def simple_used_def after_alloc_def)

lemma free_ok_second: "free_ok simple_used (unat (0 :: 32 word)) 0x108C after_second"
  by (simp add: free_ok_def free_find.simps pool_contains_def simple_used_def after_second_def)

lemma simple_init_contract: "init_contract simple_env simple_pinv simple_used"
proof -
  have "length (remdups (filter P (map f [0..<n]))) < 2 ^ 32"
    if "n < 2 ^ 32" for n :: nat and P and f :: "nat \<Rightarrow> 32 word"
  proof -
    have "length (remdups (filter P (map f [0..<n]))) \<le> length (filter P (map f [0..<n]))"
      by (rule length_remdups_leq)
    also have "\<dots> \<le> length (map f [0..<n])" by (rule length_filter_le)
    finally show ?thesis using that by simp
  qed
  moreover have "unat (w :: 32 word) < 2 ^ 32" for w
    using unsigned_less[of w, where 'a = nat] by simp
  ultimately show ?thesis
    by (simp add: init_contract_def simple_env_sel simple_PoolInit_def simple_pinv_def
        simple_used_def Let_def)
qed

lemma simple_link_contract: "link_contract simple_pinv simple_used"
  by (simp add: link_contract_def simple_pinv_def simple_used_def)

lemma of_nat_32_neq_0: "0 < n \<Longrightarrow> n < 2 ^ 32 \<Longrightarrow> (of_nat n :: 32 word) \<noteq> 0"
  using of_nat_neq_0[of n, where 'a = 32] by simp

lemma unat_of_nat_32: "n < 2 ^ 32 \<Longrightarrow> unat (of_nat n :: 32 word) = n"
  by (simp add: unat_of_nat)

lemma simple_alloc_contract: "alloc_contract simple_env simple_pinv simple_used"
  unfolding alloc_contract_def
proof (intro allI impI)
  fix r :: "(32, chunk_lists) pool" and p r'
  assume inv: "simple_pinv r" and A: "mem_PoolAllocChunk simple_env r = (p, r')"
  obtain fs us where m: "mem_PoolState_t.more r = (fs, us)" by (cases "mem_PoolState_t.more r")
  show "simple_pinv r' \<and> same_pool r r' \<and>
        (m_FreeChunksNumber r = 0 \<longrightarrow> p = 0 \<and> simple_used r' = simple_used r) \<and>
        (m_FreeChunksNumber r \<noteq> 0 \<longrightarrow>
           p \<noteq> 0 \<and> p \<notin> simple_used r \<and> simple_used r' = insert p (simple_used r) \<and>
           m_FreeChunksNumber r' = m_FreeChunksNumber r - 1)"
  proof (cases fs)
    case Nil
    with A m have "p = 0" "r' = r" by (simp_all add: simple_env_sel simple_PoolAllocChunk_def)
    with inv m Nil show ?thesis by (simp add: simple_pinv_def same_pool_def)
  next
    case (Cons q fs')
    with A m have p: "p = q"
      and r': "r' = r\<lparr>m_FreeChunksNumber := m_FreeChunksNumber r - 1,
                       mem_PoolState_t.more := (fs', q # us)\<rparr>"
      by (auto simp: simple_env_sel simple_PoolAllocChunk_def)
    from inv m Cons have len: "Suc (length fs') < 2 ^ 32" by (simp add: simple_pinv_def)
    then have nz: "(of_nat (Suc (length fs')) :: 32 word) \<noteq> 0" by (intro of_nat_32_neq_0) simp_all
    from inv m Cons nz show ?thesis
      by (auto simp: p r' simple_pinv_def same_pool_def simple_used_def)
  qed
qed

lemma simple_free_contract: "free_contract simple_env simple_pinv simple_used"
  unfolding free_contract_def
proof (intro allI impI)
  fix r :: "(32, chunk_lists) pool" and p
  assume inv: "simple_pinv r" and p: "p \<in> simple_used r"
  obtain fs us where m: "mem_PoolState_t.more r = (fs, us)" by (cases "mem_PoolState_t.more r")
  from p m have pu: "p \<in> set us" by (simp add: simple_used_def)
  from inv m have d: "distinct (fs @ us)" and z: "0 \<notin> set (fs @ us)"
    and len: "length fs + length us < 2 ^ 32"
    and fr: "m_FreeChunksNumber r = of_nat (length fs)"
    and tot: "m_ChunksNumber r = of_nat (length fs + length us)"
    by (simp_all add: simple_pinv_def)
  from d pu have lr: "length (removeAll p us) = length us - 1"
    by (simp add: distinct_remove1_removeAll[symmetric] length_remove1)
  from pu have pos: "0 < length us" by (cases us) auto
  let ?r' = "mem_PoolFreeChunk simple_env r p"
  have r': "?r' = r\<lparr>m_FreeChunksNumber := m_FreeChunksNumber r + 1,
                    mem_PoolState_t.more := (p # fs, removeAll p us)\<rparr>"
    using m by (simp add: simple_env_sel simple_PoolFreeChunk_def)
  have 1: "unat (m_FreeChunksNumber r) < unat (m_ChunksNumber r)"
    using len pos unat_of_nat_32[of "length fs"] unat_of_nat_32[of "length fs + length us"]
    by (simp add: fr tot del: of_nat_add)
  have eq: "length ((p # fs) @ removeAll p us) = length (fs @ us)" using lr pos by simp
  have "distinct ((p # fs) @ removeAll p us)" using d pu by (auto simp: distinct_removeAll)
  moreover have "0 \<notin> set ((p # fs) @ removeAll p us)" using z pu by auto
  moreover have "length ((p # fs) @ removeAll p us) < 2 ^ 32" using len unfolding eq by simp
  moreover have "m_FreeChunksNumber r + 1 = of_nat (length (p # fs))" by (simp add: fr)
  moreover have "m_ChunksNumber r = of_nat (length ((p # fs) @ removeAll p us))"
    unfolding eq by (simp add: tot)
  ultimately have 2: "simple_pinv ?r'"
    unfolding r' simple_pinv_def by (auto simp del: of_nat_add of_nat_Suc length_append append_Cons list.size)
  have 3: "same_pool r ?r'" by (simp add: r' same_pool_def)
  have 4: "simple_used ?r' = simple_used r - {p}" using m by (auto simp: r' simple_used_def)
  have 5: "m_FreeChunksNumber ?r' = m_FreeChunksNumber r + 1" by (simp add: r')
  from 1 2 3 4 5
  show "unat (m_FreeChunksNumber r) < unat (m_ChunksNumber r) \<and>
        simple_pinv ?r' \<and> same_pool r ?r' \<and>
        simple_used ?r' = simple_used r - {p} \<and>
        m_FreeChunksNumber ?r' = m_FreeChunksNumber r + 1" by simp
qed

lemma simple_contract: "pool_contract simple_env simple_pinv simple_used"
  by (simp add: pool_contract_def simple_init_contract simple_link_contract
      simple_alloc_contract simple_free_contract)

section \<open>Word arithmetic of the chunk size\<close>

lemma unat_two_power: "n < LENGTH('b :: len) \<Longrightarrow> unat (2 ^ n :: 'b word) = 2 ^ n"
proof -
  assume n: "n < LENGTH('b)"
  have "(2 ^ n :: 'b word) = of_nat (2 ^ n)" by simp
  then have "unat (2 ^ n :: 'b word) = 2 ^ n mod 2 ^ LENGTH('b)" by (simp only: unat_of_nat)
  with n show ?thesis by simp
qed

lemma unat_shift_one:
  assumes "n < 32" and "n < LENGTH('a :: len)"
  shows "unat (ucast (push_bit n (1 :: 32 word)) :: 'a word) = 2 ^ n"
proof -
  have 1: "unat (push_bit n (1 :: 32 word)) = 2 ^ n"
    using assms(1) by (simp add: unat_two_power)
  have "unat (ucast (push_bit n (1 :: 32 word)) :: 'a word) =
        take_bit LENGTH('a) (unat (push_bit n (1 :: 32 word)))"
    by (rule unsigned_ucast_eq)
  also have "\<dots> = 2 ^ n" unfolding 1 using assms(2) by (simp add: take_bit_nat_eq_self)
  finally show ?thesis .
qed

section \<open>The claims\<close>

text \<open>
  C1 (accounting invariant). In every state reached by \<^verbatim>\<open>mem_PoolsInit\<close> followed by
  calls of \<^verbatim>\<open>mem_PoolsAlloc\<close> and \<^verbatim>\<open>mem_PoolsFree\<close> that return, and for every size
  class \<open>c\<close>, the aggregate counter \<^verbatim>\<open>mem_FreeChunksNumber[c]\<close> is the sum of
  \<^verbatim>\<open>m_FreeChunksNumber\<close> over the chain \<^verbatim>\<open>mem_Pools[c]\<close>. The sum is the sum in
  \<^verbatim>\<open>size_t\<close>; it is also the sum over the natural numbers whenever that one fits
  \<^verbatim>\<open>size_t\<close>. The collaborators are any that meet the contract, and each
  \<^verbatim>\<open>mem_PoolsFree\<close> releases a chunk that the pool found for it has handed out.
\<close>

theorem accounting_invariant:
  fixes s :: "('a :: len, 'z, 'h) mem_state"
  assumes "pool_contract E pinv used" and "reachable E used s"
    and "c < MEM_POOL_CHUNK_TYPE__COUNT E"
  shows "chain_free_sum (pool_mem s) (mem_Pools s c) = Some (mem_FreeChunksNumber s c) \<and>
         (\<forall>n. chain_free_total (pool_mem s) (mem_Pools s c) = Some n \<longrightarrow> n < 2 ^ LENGTH('a) \<longrightarrow>
            unat (mem_FreeChunksNumber s c) = n)"
proof -
  from reachable_pools_inv[OF assms(1,2)] assms(3)
  obtain as where ci: "class_inv pinv used {} s c as"
    and sg: "seg (pool_mem s) (mem_Pools s c) as 0"
    by (rule pools_inv_seg)
  from sg have pc: "pool_chain (pool_mem s) (mem_Pools s c) = Some as" by (simp add: pool_chain_seg)
  from ci have eq: "mem_FreeChunksNumber s c = sum_list (map (pool_free (pool_mem s)) as)"
    by (simp add: class_inv_def)
  have "unat (sum_list (map (pool_free (pool_mem s)) as)) = sum_list (map (\<lambda>a. unat (pool_free (pool_mem s) a)) as)"
    if "sum_list (map (\<lambda>a. unat (pool_free (pool_mem s) a)) as) < 2 ^ LENGTH('a)"
    using unat_sum_list[of "map (pool_free (pool_mem s)) as"] that by (simp add: comp_def)
  with pc eq show ?thesis by (auto simp: chain_free_sum_def chain_free_total_def)
qed

theorem accounting_invariant_witness:
  "pool_contract simple_env simple_pinv simple_used \<and>
   reachable simple_env simple_used after_alloc \<and>
   (0 :: nat) < MEM_POOL_CHUNK_TYPE__COUNT simple_env \<and>
   mem_FreeChunksNumber after_alloc 0 = 7 \<and>
   chain_free_sum (pool_mem after_alloc) (mem_Pools after_alloc 0) = Some 7 \<and>
   chain_free_total (pool_mem after_alloc) (mem_Pools after_alloc 0) = Some 7 \<and>
   unat (mem_FreeChunksNumber after_alloc 0) = 7"
proof -
  have R: "reachable simple_env simple_used after_alloc"
    by (rule reach_alloc[OF reach_init[OF init_run] alloc_run])
  have K: "(0 :: nat) < MEM_POOL_CHUNK_TYPE__COUNT simple_env" by (simp add: simple_env_sel)
  have cnt: "mem_FreeChunksNumber after_alloc 0 = 7" by (simp add: after_alloc_def)
  have tot: "chain_free_total (pool_mem after_alloc) (mem_Pools after_alloc 0) = Some 7"
    by (simp add: chain_free_total_def pool_chain.simps pool_free_def after_alloc_def)
  from accounting_invariant[OF simple_contract R K] cnt tot simple_contract R K
  show ?thesis by simp
qed

text \<open>
  C9 (chunk-size derivation). For a size class \<open>c\<close> below \<^verbatim>\<open>MEM_POOL_CHUNK_TYPE__COUNT\<close>,
  \<^verbatim>\<open>mem_GetChunkSize\<close> returns exactly \<open>2 ^ (c + 2)\<close> bytes, that is \<^verbatim>\<open>1 << (c + 2)\<close>. It
  takes no state and returns none, and of the environment it reads the count of size
  classes only. The count is not part of the file; the shift of a 32-bit \<^verbatim>\<open>1u\<close> is
  below 32 bits and the result fits \<^verbatim>\<open>size_t\<close> when the count is at most 30 and at
  most the width of \<^verbatim>\<open>size_t\<close> less two.
\<close>

theorem chunk_size_derivation:
  fixes E :: "('a :: len, 'z, 'h) mem_env"
  assumes "unat c < MEM_POOL_CHUNK_TYPE__COUNT E"
    and "MEM_POOL_CHUNK_TYPE__COUNT E + 2 \<le> 32"
    and "MEM_POOL_CHUNK_TYPE__COUNT E + 2 \<le> LENGTH('a)"
  shows "\<exists>sz. mem_GetChunkSize E c = Inr sz \<and> unat sz = 2 ^ (unat c + 2) \<and>
           (\<forall>E' :: ('a, 'z, 'h) mem_env.
              MEM_POOL_CHUNK_TYPE__COUNT E' = MEM_POOL_CHUNK_TYPE__COUNT E \<longrightarrow>
              mem_GetChunkSize E' c = Inr sz)"
proof -
  from assms have b: "unat c + 2 < 32" "unat c + 2 < LENGTH('a)" by simp_all
  then have "unat c + unat (2 :: 32 word) < 2 ^ LENGTH(32)" by simp
  then have "unat (c + 2) = unat c + 2" by (simp add: unat_add_lem[THEN iffD1])
  with unat_shift_one[OF b] assms(1) show ?thesis
    by (simp add: mem_GetChunkSize_def)
qed

theorem chunk_size_derivation_witness:
  "unat (3 :: 32 word) < MEM_POOL_CHUNK_TYPE__COUNT simple_env \<and>
   MEM_POOL_CHUNK_TYPE__COUNT simple_env + 2 \<le> 32 \<and>
   MEM_POOL_CHUNK_TYPE__COUNT simple_env + 2 \<le> LENGTH(32) \<and>
   mem_GetChunkSize simple_env 3 = Inr 32 \<and> unat (32 :: 32 word) = 2 ^ (unat (3 :: 32 word) + 2)"
proof -
  have h: "unat (3 :: 32 word) < MEM_POOL_CHUNK_TYPE__COUNT simple_env"
    "MEM_POOL_CHUNK_TYPE__COUNT simple_env + 2 \<le> 32"
    "MEM_POOL_CHUNK_TYPE__COUNT simple_env + 2 \<le> LENGTH(32)"
    by (simp_all add: simple_env_sel)
  from chunk_size_derivation[OF h] h show ?thesis by (simp add: simple_chunk_sizes)
qed

text \<open>
  C6 (ownership lookup). On a chain \<open>as\<close>, the search loop of \<^verbatim>\<open>mem_PoolsFree\<close> returns
  the first pool \<open>r\<close> of the chain, from the head, with
  \<^verbatim>\<open>pChunk >= m_pChunks\<close> and \<^verbatim>\<open>pChunk <= m_pPoolStart + m_PoolSize\<close>, together with the
  pool before it in the chain (\<^verbatim>\<open>NULL\<close> for the head). The upper bound is inclusive:
  the address \<^verbatim>\<open>m_pPoolStart + m_PoolSize\<close>, one byte past the block, is accepted by the
  pool when the sum does not wrap below \<^verbatim>\<open>m_pChunks\<close>.
\<close>

theorem ownership_lookup:
  assumes "pool_chain m h = Some as"
  shows "free_find m p h 0 =
           Some (case as of
                   [] \<Rightarrow> Inl NullDereference
                 | _ \<Rightarrow> (case first_owner m p 0 as of
                           None \<Rightarrow> Inl AssertionFailure
                         | Some x \<Rightarrow> Inr x)) \<and>
         (\<forall>a q. free_find m p h 0 = Some (Inr (a, q)) \<longrightarrow>
            (\<exists>ys zs r. as = ys @ a # zs \<and> q = (if ys = [] then 0 else last ys) \<and>
               m a = Some r \<and> m_pChunks r \<le> p \<and> p \<le> m_pPoolStart r + m_PoolSize r \<and>
               (\<forall>b\<in>set ys. \<forall>rb. m b = Some rb \<longrightarrow>
                  \<not> (m_pChunks rb \<le> p \<and> p \<le> m_pPoolStart rb + m_PoolSize rb)))) \<and>
         (\<forall>r. m h = Some r \<longrightarrow> h \<noteq> 0 \<longrightarrow> m_pChunks r \<le> m_pPoolStart r + m_PoolSize r \<longrightarrow>
            free_find m (m_pPoolStart r + m_PoolSize r) h 0 = Some (Inr (h, 0)))"
proof -
  from assms have sg: "seg m h as 0" by (simp add: pool_chain_seg)
  note ff = free_find_seg[OF sg, of p 0]
  have 2: "\<exists>ys zs r. as = ys @ a # zs \<and> q = (if ys = [] then 0 else last ys) \<and>
               m a = Some r \<and> m_pChunks r \<le> p \<and> p \<le> m_pPoolStart r + m_PoolSize r \<and>
               (\<forall>b\<in>set ys. \<forall>rb. m b = Some rb \<longrightarrow>
                  \<not> (m_pChunks rb \<le> p \<and> p \<le> m_pPoolStart rb + m_PoolSize rb))"
    if "free_find m p h 0 = Some (Inr (a, q))" for a q
  proof -
    from that ff have "first_owner m p 0 as = Some (a, q)"
      by (auto split: list.splits option.splits)
    from first_owner_SomeD[OF this] show ?thesis by (simp add: pool_contains_def)
  qed
  have 3: "free_find m (m_pPoolStart r + m_PoolSize r) h 0 = Some (Inr (h, 0))"
    if "m h = Some r" "h \<noteq> 0" "m_pChunks r \<le> m_pPoolStart r + m_PoolSize r" for r
    using that by (subst free_find.simps) (simp add: pool_contains_def)
  from ff 2 3 show ?thesis by blast
qed

theorem ownership_lookup_witness:
  "pool_chain (pool_mem after_alloc) (mem_Pools after_alloc 0) = Some [0x1004] \<and>
   free_find (pool_mem after_alloc) 0x1090 (mem_Pools after_alloc 0) 0 = Some (Inr (0x1004, 0)) \<and>
   free_find (pool_mem after_alloc) 0x10A8 (mem_Pools after_alloc 0) 0 = Some (Inr (0x1004, 0)) \<and>
   free_find (pool_mem after_alloc) 0x10A9 (mem_Pools after_alloc 0) 0 = Some (Inl AssertionFailure)"
proof -
  have c: "pool_chain (pool_mem after_alloc) (mem_Pools after_alloc 0) = Some [0x1004]"
    by (simp add: pool_chain.simps after_alloc_def)
  from ownership_lookup[OF c, where p = "0x1090"] ownership_lookup[OF c, where p = "0x10A8"]
    ownership_lookup[OF c, where p = "0x10A9"] c
  show ?thesis by (simp add: after_alloc_def pool_contains_def)
qed

lemma free_outside_asserts:
  assumes "unat c < MEM_POOL_CHUNK_TYPE__COUNT E"
    and "pool_chain (pool_mem s) (mem_Pools s (unat c)) = Some as" and "as \<noteq> []"
    and "\<forall>a\<in>set as. \<forall>r. pool_mem s a = Some r \<longrightarrow> \<not> pool_contains r p"
  shows "mem_PoolsFree E c p s = Some (Inl AssertionFailure)"
proof -
  from assms(2) have sg: "seg (pool_mem s) (mem_Pools s (unat c)) as 0" by (simp add: pool_chain_seg)
  have "first_owner (pool_mem s) p q as = None" for q
    using assms(4)
  proof (induction as arbitrary: q)
    case Nil
    then show ?case by simp
  next
    case (Cons a as)
    then show ?case by (auto split: option.splits)
  qed
  with assms(1,3) show ?thesis
    unfolding mem_PoolsFree_seg[OF assms(1) sg] by (simp add: case_list_ne)
qed

text \<open>
  C7 (size-class boundary). When no pool of a chain that is not empty accepts the
  pointer, \<^verbatim>\<open>mem_PoolsFree\<close> ends in the assertion \<^verbatim>\<open>JERRY_ASSERT( poolState != NULL )\<close>
  (\<open>free_outside_asserts\<close>). When the chain is empty it does not: right after
  \<^verbatim>\<open>mem_PoolsInit\<close> the loop test reads \<^verbatim>\<open>poolState->m_pChunks\<close> through the \<^verbatim>\<open>NULL\<close>
  head, before any assertion is reached.
\<close>

theorem free_empty_chain:
  "mem_Pools after_init (unat (0 :: 32 word)) = 0 \<and>
   mem_PoolsFree simple_env 0 p after_init = Some (Inl NullDereference)"
  by (simp add: mem_PoolsFree_def free_find.simps simple_env_sel after_init_def)

lemma alloc_grow_block_fail:
  assumes "mem_PoolAllocChunk E (mem_PoolForPoolHeaders s) = (ps, hp)" and "ps \<noteq> 0"
    and "mem_HeapAllocBlock E (heap s) (mem_HeapRecommendAllocationSize E (8 * cs + sizeof_mword_t E))
           MEM_HEAP_ALLOC_LONG_TERM = (0, h)"
  shows "alloc_grow E i cs s = Inr (Inl (0, s\<lparr>mem_PoolForPoolHeaders := hp, heap := h\<rparr>))"
  using assms by (simp add: alloc_grow_def Let_def)

text \<open>
  C5 (heap failure during growth). When the aggregate counter of the class is zero, the
  pool of pool headers hands out a chunk \<open>ps\<close> and \<^verbatim>\<open>mem_HeapAllocBlock\<close> then returns
  \<^verbatim>\<open>NULL\<close>, \<^verbatim>\<open>mem_PoolsAlloc\<close> returns \<^verbatim>\<open>NULL\<close> in the state in which only the pool of pool
  headers and the heap have changed: the chunk \<open>ps\<close> is not released, so the pool of
  pool headers has one free chunk less and counts \<open>ps\<close> among the chunks handed out,
  and \<open>ps\<close> is in no chain, where alone \<^verbatim>\<open>mem_PoolsFree\<close> could find it to release it.
\<close>

theorem heap_failure_leak:
  assumes "pool_contract E pinv used" and "reachable E used s"
    and "mem_GetChunkSize E c = Inr cs"
    and "mem_FreeChunksNumber s (unat c) = 0"
    and "mem_PoolAllocChunk E (mem_PoolForPoolHeaders s) = (ps, hp)" and "ps \<noteq> 0"
    and "mem_HeapAllocBlock E (heap s) (mem_HeapRecommendAllocationSize E (8 * cs + sizeof_mword_t E))
           MEM_HEAP_ALLOC_LONG_TERM = (0, h)"
  shows "mem_PoolsAlloc E c s = Some (Inr (0, s\<lparr>mem_PoolForPoolHeaders := hp, heap := h\<rparr>)) \<and>
         m_FreeChunksNumber hp = m_FreeChunksNumber (mem_PoolForPoolHeaders s) - 1 \<and>
         ps \<notin> used (mem_PoolForPoolHeaders s) \<and>
         used hp = insert ps (used (mem_PoolForPoolHeaders s)) \<and>
         (\<forall>c' < MEM_POOL_CHUNK_TYPE__COUNT E. \<forall>as.
            pool_chain (pool_mem (s\<lparr>mem_PoolForPoolHeaders := hp, heap := h\<rparr>))
              (mem_Pools (s\<lparr>mem_PoolForPoolHeaders := hp, heap := h\<rparr>) c') = Some as \<longrightarrow>
            ps \<notin> set as)"
proof -
  note G = alloc_grow_block_fail[OF assms(5,6,7), of "unat c"]
  from assms(3,4) G
  have 1: "mem_PoolsAlloc E c s = Some (Inr (0, s\<lparr>mem_PoolForPoolHeaders := hp, heap := h\<rparr>))"
    by (simp add: mem_PoolsAlloc_def alloc_from_def)
  note I = reachable_pools_inv[OF assms(1,2)]
  then have hp0: "pinv (mem_PoolForPoolHeaders s)" by (simp add: pools_inv_def base_inv_def)
  note ca = contract_alloc[OF assms(1) hp0 assms(5)]
  from ca(3) assms(6) have nz: "m_FreeChunksNumber (mem_PoolForPoolHeaders s) \<noteq> 0" by auto
  note f = ca(4)[OF nz]
  have 2: "ps \<notin> set as"
    if c': "c' < MEM_POOL_CHUNK_TYPE__COUNT E"
      and pc: "pool_chain (pool_mem s) (mem_Pools s c') = Some as" for c' as
  proof -
    from I c' obtain bs where ci: "class_inv pinv used {} s c' bs"
      and sg: "seg (pool_mem s) (mem_Pools s c') bs 0"
      by (rule pools_inv_seg)
    from pc sg have "as = bs" by (auto simp: pool_chain_seg dest: path_unique)
    with ci f show ?thesis by (auto simp: class_inv_def)
  qed
  from 1 f 2 show ?thesis by simp
qed

theorem heap_failure_leak_witness:
  "pool_contract simple_env simple_pinv simple_used \<and>
   reachable simple_env simple_used tight_init \<and>
   mem_GetChunkSize simple_env 0 = Inr 4 \<and>
   mem_FreeChunksNumber tight_init (unat (0 :: 32 word)) = 0 \<and>
   fst (mem_PoolAllocChunk simple_env (mem_PoolForPoolHeaders tight_init)) = 0x1004 \<and>
   fst (mem_HeapAllocBlock simple_env (heap tight_init)
          (mem_HeapRecommendAllocationSize simple_env (8 * 4 + sizeof_mword_t simple_env))
          MEM_HEAP_ALLOC_LONG_TERM) = 0 \<and>
   (\<exists>s'. mem_PoolsAlloc simple_env 0 tight_init = Some (Inr (0, s')) \<and>
      m_FreeChunksNumber (mem_PoolForPoolHeaders tight_init) = 4 \<and>
      m_FreeChunksNumber (mem_PoolForPoolHeaders s') = 3 \<and>
      simple_used (mem_PoolForPoolHeaders s') = {0x1004} \<and>
      mem_Pools s' = (\<lambda>_. 0))"
proof -
  let ?hp = "\<lparr>m_pPoolStart = 0x1000, m_PoolSize = 132, m_pChunks = 0x1004, m_ChunksNumber = 4,
         m_FreeChunksNumber = 3, m_pNextPool = 0,
         \<dots> = ([0x1024, 0x1044, 0x1064], [0x1004 :: 32 word])\<rparr> :: (32, chunk_lists) pool"
  have R: "reachable simple_env simple_used tight_init"
    by (rule reach_init[OF tight_run])
  have cs: "mem_GetChunkSize simple_env 0 = Inr 4" by (rule simple_chunk_sizes)
  have z: "mem_FreeChunksNumber tight_init (unat (0 :: 32 word)) = 0" by (simp add: tight_init_def)
  have A: "mem_PoolAllocChunk simple_env (mem_PoolForPoolHeaders tight_init) = (0x1004, ?hp)"
    by (simp add: simple_env_sel simple_PoolAllocChunk_def tight_init_def)
  have ps: "(0x1004 :: 32 word) \<noteq> 0" by simp
  have H: "mem_HeapAllocBlock simple_env (heap tight_init)
          (mem_HeapRecommendAllocationSize simple_env (8 * 4 + sizeof_mword_t simple_env))
          MEM_HEAP_ALLOC_LONG_TERM = (0, (0x1084, 0x1084))"
    by (simp add: simple_env_sel simple_HeapAllocBlock_def tight_init_def)
  from heap_failure_leak[OF simple_contract R cs z A ps H] simple_contract R cs z A H
  show ?thesis by (simp add: tight_init_def simple_used_def)
qed

lemma alloc_find_hit:
  "a \<noteq> 0 \<Longrightarrow> m a = Some r \<Longrightarrow> m_FreeChunksNumber r \<noteq> 0 \<Longrightarrow> alloc_find m a = Some (Inr a)"
  by (subst alloc_find.simps) simp

lemma alloc_no_growth:
  assumes "mem_GetChunkSize E c = Inr cs" and "mem_FreeChunksNumber s (unat c) \<noteq> 0"
    and "mem_PoolsAlloc E c s = Some (Inr (p, s'))"
  shows "mem_PoolForPoolHeaders s' = mem_PoolForPoolHeaders s \<and> heap s' = heap s \<and>
         mem_Pools s' = mem_Pools s \<and> dom (pool_mem s') = dom (pool_mem s)"
proof -
  from assms(3) obtain a where "alloc_from E c s = Some (Inr (a, p, s'))"
    by (rule mem_PoolsAlloc_SomeD)
  with assms(1,2) have "alloc_take E (unat c) s = Some (Inr (a, p, s'))"
    by (simp add: alloc_from_def)
  then show ?thesis
    by (auto simp: alloc_take_def Let_def split: option.splits sum.splits prod.splits if_splits)
qed

lemma alloc_header_fail:
  assumes "mem_GetChunkSize E c = Inr cs" and "mem_FreeChunksNumber s (unat c) = 0"
    and "mem_PoolAllocChunk E (mem_PoolForPoolHeaders s) = (0, hp)"
  shows "mem_PoolsAlloc E c s = Some (Inr (0, s\<lparr>mem_PoolForPoolHeaders := hp\<rparr>))"
  using assms by (simp add: mem_PoolsAlloc_def alloc_from_def alloc_grow_def)

lemma alloc_growth:
  assumes C: "pool_contract E pinv used"
    and cs: "mem_GetChunkSize E c = Inr cs" and z: "mem_FreeChunksNumber s (unat c) = 0"
    and A: "mem_PoolAllocChunk E (mem_PoolForPoolHeaders s) = (ps, hp)" and ps: "ps \<noteq> 0"
    and H: "mem_HeapAllocBlock E (heap s) (mem_HeapRecommendAllocationSize E (8 * cs + sizeof_mword_t E))
           MEM_HEAP_ALLOC_LONG_TERM = (blk, h)" and blk: "blk \<noteq> 0"
    and sp: "mem_SpaceForPoolForPoolHeaders s \<noteq> 0"
    and ne: "m_ChunksNumber (mem_PoolInit E cs blk
               (mem_HeapRecommendAllocationSize E (8 * cs + sizeof_mword_t E))) \<noteq> 0"
  shows "\<exists>p s' r. mem_PoolsAlloc E c s = Some (Inr (p, s')) \<and> p \<noteq> 0 \<and>
           mem_PoolForPoolHeaders s' = hp \<and> heap s' = h \<and>
           mem_Pools s' = (mem_Pools s)(unat c := ps) \<and>
           pool_mem s' = (pool_mem s)(ps \<mapsto> r) \<and>
           m_pNextPool r = mem_Pools s (unat c) \<and>
           m_pPoolStart r = blk \<and>
           m_PoolSize r = mem_HeapRecommendAllocationSize E (8 * cs + sizeof_mword_t E) \<and>
           m_ChunksNumber r = m_ChunksNumber (mem_PoolInit E cs blk
               (mem_HeapRecommendAllocationSize E (8 * cs + sizeof_mword_t E))) \<and>
           m_FreeChunksNumber r = m_ChunksNumber r - 1 \<and>
           mem_FreeChunksNumber s' = (mem_FreeChunksNumber s)(unat c := m_ChunksNumber r - 1)"
proof -
  let ?sz = "mem_HeapRecommendAllocationSize E (8 * cs + sizeof_mword_t E)"
  let ?r0 = "(mem_PoolInit E cs blk ?sz)\<lparr>m_pNextPool := mem_Pools s (unat c)\<rparr>"
  let ?s1 = "s\<lparr>mem_PoolForPoolHeaders := hp, heap := h,
            pool_mem := (pool_mem s)(ps \<mapsto> ?r0),
            mem_Pools := (mem_Pools s)(unat c := ps),
            mem_FreeChunksNumber := (mem_FreeChunksNumber s)
              (unat c := mem_FreeChunksNumber s (unat c) + m_FreeChunksNumber (mem_PoolInit E cs blk ?sz))\<rparr>"
  note ci = contract_init[OF C, of cs blk ?sz]
  from ci(3) ne have nz: "m_FreeChunksNumber ?r0 \<noteq> 0" by simp
  from ci(1) contract_link[OF C] have pr: "pinv ?r0" by simp
  obtain p r where R: "mem_PoolAllocChunk E ?r0 = (p, r)" by (cases "mem_PoolAllocChunk E ?r0")
  note ca = contract_alloc[OF C pr R]
  have G: "alloc_grow E (unat c) cs s = Inr (Inr ?s1)"
    using A ps H blk sp by (simp add: alloc_grow_def Let_def)
  have F: "alloc_find (pool_mem ?s1) (mem_Pools ?s1 (unat c)) = Some (Inr ps)"
    using alloc_find_hit[OF ps, of "pool_mem ?s1" ?r0] nz by simp
  have T: "alloc_take E (unat c) ?s1 = Some (Inr (ps, p,
      ?s1\<lparr>mem_FreeChunksNumber := (mem_FreeChunksNumber ?s1)(unat c := mem_FreeChunksNumber ?s1 (unat c) - 1),
          pool_mem := (pool_mem ?s1)(ps \<mapsto> r)\<rparr>))"
    unfolding alloc_take_def F using R by simp
  from cs z G T have M: "mem_PoolsAlloc E c s = Some (Inr (p,
      ?s1\<lparr>mem_FreeChunksNumber := (mem_FreeChunksNumber ?s1)(unat c := mem_FreeChunksNumber ?s1 (unat c) - 1),
          pool_mem := (pool_mem ?s1)(ps \<mapsto> r)\<rparr>))"
    by (simp add: mem_PoolsAlloc_def alloc_from_def)
  from ca(2) ci have f: "m_pNextPool r = mem_Pools s (unat c)" "m_pPoolStart r = blk"
    "m_PoolSize r = ?sz" "m_ChunksNumber r = m_ChunksNumber (mem_PoolInit E cs blk ?sz)"
    by (simp_all add: same_pool_def)
  from ca(4)[OF nz] ci(3) f(4) have g: "p \<noteq> 0" "m_FreeChunksNumber r = m_ChunksNumber r - 1" by simp_all
  let ?s2 = "?s1\<lparr>mem_FreeChunksNumber := (mem_FreeChunksNumber ?s1)(unat c := mem_FreeChunksNumber ?s1 (unat c) - 1),
          pool_mem := (pool_mem ?s1)(ps \<mapsto> r)\<rparr>"
  from f g z ci(3) M show ?thesis
    by - (rule exI[of _ p], rule exI[of _ ?s2], rule exI[of _ r], simp)
qed


lemma alloc_block_fail:
  assumes "mem_GetChunkSize E c = Inr cs" and "mem_FreeChunksNumber s (unat c) = 0"
    and "mem_PoolAllocChunk E (mem_PoolForPoolHeaders s) = (ps, hp)" and "ps \<noteq> 0"
    and "mem_HeapAllocBlock E (heap s) (mem_HeapRecommendAllocationSize E (8 * cs + sizeof_mword_t E))
           MEM_HEAP_ALLOC_LONG_TERM = (0, h)"
  shows "mem_PoolsAlloc E c s = Some (Inr (0, s\<lparr>mem_PoolForPoolHeaders := hp, heap := h\<rparr>))"
  using assms(1,2) alloc_grow_block_fail[OF assms(3,4,5), of "unat c"]
  by (simp add: mem_PoolsAlloc_def alloc_from_def)

lemma alloc_store_fault:
  assumes "mem_GetChunkSize E c = Inr cs" and "mem_FreeChunksNumber s (unat c) = 0"
    and "mem_PoolAllocChunk E (mem_PoolForPoolHeaders s) = (ps, hp)" and "ps \<noteq> 0"
    and "mem_HeapAllocBlock E (heap s) (mem_HeapRecommendAllocationSize E (8 * cs + sizeof_mword_t E))
           MEM_HEAP_ALLOC_LONG_TERM = (blk, h)" and "blk \<noteq> 0"
    and "mem_SpaceForPoolForPoolHeaders s = 0"
  shows "mem_PoolsAlloc E c s = Some (Inl NullDereference)"
  using assms by (simp add: mem_PoolsAlloc_def alloc_from_def alloc_grow_def Let_def)

text \<open>
  C2 (allocation growth step). For a size class with chunk size \<open>cs\<close>:
  \<^item> when the aggregate counter is not zero at entry, a call that returns has left the
    pool of pool headers, the heap and every chain head as they were, and has written
    no new pool header: no growth;
  \<^item> when it is zero, the pool of pool headers is asked first; if it returns \<^verbatim>\<open>NULL\<close>
    the call returns \<^verbatim>\<open>NULL\<close> and the heap is untouched;
  \<^item> otherwise the heap is asked for a block of the size recommended for
    \<open>8 * cs + sizeof (mword_t)\<close>; if it returns \<^verbatim>\<open>NULL\<close> the call returns \<^verbatim>\<open>NULL\<close>;
  \<^item> if it supplies a block, the new pool header is stored at the address the pool of
    pool headers returned. Where \<^verbatim>\<open>mem_PoolsInit\<close> had obtained the block of the pool of
    pool headers, and a pool with at least one chunk is initialised over the new block,
    the call returns a chunk, the new pool header \<open>r\<close> describes the new block, links to
    the old head and is the new head, and the aggregate counter is the chunk count of
    the new pool (added to zero) less the chunk just allocated;
  \<^item> where \<^verbatim>\<open>mem_PoolsInit\<close> had got \<^verbatim>\<open>NULL\<close> for the block of the pool of pool headers,
    that store goes through a pointer into no block and the call does not return.
\<close>

theorem growth_step:
  assumes "pool_contract E pinv used" and "mem_GetChunkSize E c = Inr cs"
  shows "(mem_FreeChunksNumber s (unat c) \<noteq> 0 \<longrightarrow>
            (\<forall>p s'. mem_PoolsAlloc E c s = Some (Inr (p, s')) \<longrightarrow>
               mem_PoolForPoolHeaders s' = mem_PoolForPoolHeaders s \<and> heap s' = heap s \<and>
               mem_Pools s' = mem_Pools s \<and> dom (pool_mem s') = dom (pool_mem s))) \<and>
         (mem_FreeChunksNumber s (unat c) = 0 \<longrightarrow>
            (\<forall>ps hp blk h.
               mem_PoolAllocChunk E (mem_PoolForPoolHeaders s) = (ps, hp) \<longrightarrow>
               mem_HeapAllocBlock E (heap s)
                 (mem_HeapRecommendAllocationSize E (8 * cs + sizeof_mword_t E))
                 MEM_HEAP_ALLOC_LONG_TERM = (blk, h) \<longrightarrow>
               (ps = 0 \<longrightarrow>
                  mem_PoolsAlloc E c s = Some (Inr (0, s\<lparr>mem_PoolForPoolHeaders := hp\<rparr>))) \<and>
               (ps \<noteq> 0 \<longrightarrow> blk = 0 \<longrightarrow>
                  mem_PoolsAlloc E c s =
                    Some (Inr (0, s\<lparr>mem_PoolForPoolHeaders := hp, heap := h\<rparr>))) \<and>
               (ps \<noteq> 0 \<longrightarrow> blk \<noteq> 0 \<longrightarrow> mem_SpaceForPoolForPoolHeaders s = 0 \<longrightarrow>
                  mem_PoolsAlloc E c s = Some (Inl NullDereference)) \<and>
               (ps \<noteq> 0 \<longrightarrow> blk \<noteq> 0 \<longrightarrow> mem_SpaceForPoolForPoolHeaders s \<noteq> 0 \<longrightarrow>
                  m_ChunksNumber (mem_PoolInit E cs blk
                    (mem_HeapRecommendAllocationSize E (8 * cs + sizeof_mword_t E))) \<noteq> 0 \<longrightarrow>
                  (\<exists>p s' r. mem_PoolsAlloc E c s = Some (Inr (p, s')) \<and> p \<noteq> 0 \<and>
                     mem_PoolForPoolHeaders s' = hp \<and> heap s' = h \<and>
                     mem_Pools s' = (mem_Pools s)(unat c := ps) \<and>
                     pool_mem s' = (pool_mem s)(ps \<mapsto> r) \<and>
                     m_pNextPool r = mem_Pools s (unat c) \<and>
                     m_pPoolStart r = blk \<and>
                     m_PoolSize r = mem_HeapRecommendAllocationSize E (8 * cs + sizeof_mword_t E) \<and>
                     m_ChunksNumber r = m_ChunksNumber (mem_PoolInit E cs blk
                       (mem_HeapRecommendAllocationSize E (8 * cs + sizeof_mword_t E))) \<and>
                     m_FreeChunksNumber r = m_ChunksNumber r - 1 \<and>
                     mem_FreeChunksNumber s' =
                       (mem_FreeChunksNumber s)(unat c := m_ChunksNumber r - 1)))))"
proof (intro conjI impI allI)
  fix p s'
  assume "mem_FreeChunksNumber s (unat c) \<noteq> 0" "mem_PoolsAlloc E c s = Some (Inr (p, s'))"
  from alloc_no_growth[OF assms(2) this]
  show "mem_PoolForPoolHeaders s' = mem_PoolForPoolHeaders s" "heap s' = heap s"
    "mem_Pools s' = mem_Pools s" "dom (pool_mem s') = dom (pool_mem s)" by simp_all
next
  fix ps hp blk h
  assume "mem_FreeChunksNumber s (unat c) = 0"
    "mem_PoolAllocChunk E (mem_PoolForPoolHeaders s) = (ps, hp)" "ps = 0"
  then show "mem_PoolsAlloc E c s = Some (Inr (0, s\<lparr>mem_PoolForPoolHeaders := hp\<rparr>))"
    using alloc_header_fail[OF assms(2)] by simp
next
  fix ps hp blk h
  let ?sz = "mem_HeapRecommendAllocationSize E (8 * cs + sizeof_mword_t E)"
  assume "mem_FreeChunksNumber s (unat c) = 0"
    "mem_PoolAllocChunk E (mem_PoolForPoolHeaders s) = (ps, hp)"
    "mem_HeapAllocBlock E (heap s) ?sz MEM_HEAP_ALLOC_LONG_TERM = (blk, h)"
    "ps \<noteq> 0" "blk = 0"
  then show "mem_PoolsAlloc E c s = Some (Inr (0, s\<lparr>mem_PoolForPoolHeaders := hp, heap := h\<rparr>))"
    using alloc_block_fail[OF assms(2), of s ps hp h] by simp
next
  fix ps hp blk h
  let ?sz = "mem_HeapRecommendAllocationSize E (8 * cs + sizeof_mword_t E)"
  assume "mem_FreeChunksNumber s (unat c) = 0"
    "mem_PoolAllocChunk E (mem_PoolForPoolHeaders s) = (ps, hp)"
    "mem_HeapAllocBlock E (heap s) ?sz MEM_HEAP_ALLOC_LONG_TERM = (blk, h)"
    "ps \<noteq> 0" "blk \<noteq> 0" "mem_SpaceForPoolForPoolHeaders s = 0"
  then show "mem_PoolsAlloc E c s = Some (Inl NullDereference)"
    by (intro alloc_store_fault[OF assms(2)])
next
  fix ps hp blk h
  let ?sz = "mem_HeapRecommendAllocationSize E (8 * cs + sizeof_mword_t E)"
  assume "mem_FreeChunksNumber s (unat c) = 0"
    "mem_PoolAllocChunk E (mem_PoolForPoolHeaders s) = (ps, hp)"
    "mem_HeapAllocBlock E (heap s) ?sz MEM_HEAP_ALLOC_LONG_TERM = (blk, h)"
    "ps \<noteq> 0" "blk \<noteq> 0" "mem_SpaceForPoolForPoolHeaders s \<noteq> 0"
    "m_ChunksNumber (mem_PoolInit E cs blk ?sz) \<noteq> 0"
  then show "\<exists>p s' r. mem_PoolsAlloc E c s = Some (Inr (p, s')) \<and> p \<noteq> 0 \<and>
                     mem_PoolForPoolHeaders s' = hp \<and> heap s' = h \<and>
                     mem_Pools s' = (mem_Pools s)(unat c := ps) \<and>
                     pool_mem s' = (pool_mem s)(ps \<mapsto> r) \<and>
                     m_pNextPool r = mem_Pools s (unat c) \<and>
                     m_pPoolStart r = blk \<and>
                     m_PoolSize r = ?sz \<and>
                     m_ChunksNumber r = m_ChunksNumber (mem_PoolInit E cs blk ?sz) \<and>
                     m_FreeChunksNumber r = m_ChunksNumber r - 1 \<and>
                     mem_FreeChunksNumber s' =
                       (mem_FreeChunksNumber s)(unat c := m_ChunksNumber r - 1)"
    by (intro alloc_growth[OF assms])
qed

theorem growth_step_witness:
  "pool_contract simple_env simple_pinv simple_used \<and>
   mem_GetChunkSize simple_env 0 = Inr 4 \<and>
   mem_FreeChunksNumber after_init (unat (0 :: 32 word)) = 0 \<and>
   fst (mem_PoolAllocChunk simple_env (mem_PoolForPoolHeaders after_init)) = 0x1004 \<and>
   fst (mem_HeapAllocBlock simple_env (heap after_init)
          (mem_HeapRecommendAllocationSize simple_env (8 * 4 + sizeof_mword_t simple_env))
          MEM_HEAP_ALLOC_LONG_TERM) = 0x1084 \<and>
   mem_SpaceForPoolForPoolHeaders after_init = 0x1000 \<and>
   m_ChunksNumber (mem_PoolInit simple_env 4 0x1084 36) = 8 \<and>
   mem_PoolsAlloc simple_env 0 after_init = Some (Inr (0x1088, after_alloc)) \<and>
   mem_Pools after_alloc 0 = 0x1004 \<and>
   map_option m_pPoolStart (pool_mem after_alloc 0x1004) = Some 0x1084 \<and>
   map_option m_PoolSize (pool_mem after_alloc 0x1004) = Some 36 \<and>
   map_option m_pNextPool (pool_mem after_alloc 0x1004) = Some (mem_Pools after_init 0) \<and>
   mem_FreeChunksNumber after_alloc 0 = 8 - 1 \<and>
   mem_FreeChunksNumber after_alloc (unat (0 :: 32 word)) \<noteq> 0 \<and>
   mem_PoolsAlloc simple_env 0 after_alloc = Some (Inr (0x108C, after_second)) \<and>
   mem_PoolForPoolHeaders after_second = mem_PoolForPoolHeaders after_alloc \<and>
   heap after_second = heap after_alloc \<and> mem_Pools after_second = mem_Pools after_alloc \<and>
   mem_FreeChunksNumber failed_init (unat (0 :: 32 word)) = 0 \<and>
   fst (mem_PoolAllocChunk simple_env (mem_PoolForPoolHeaders failed_init)) = 4 \<and>
   fst (mem_HeapAllocBlock simple_env (heap failed_init)
          (mem_HeapRecommendAllocationSize simple_env (8 * 4 + sizeof_mword_t simple_env))
          MEM_HEAP_ALLOC_LONG_TERM) = 0x1000 \<and>
   mem_SpaceForPoolForPoolHeaders failed_init = 0 \<and>
   mem_PoolsAlloc simple_env 0 failed_init = Some (Inl NullDereference)"
proof -
  let ?hp = "\<lparr>m_pPoolStart = 0x1000, m_PoolSize = 132, m_pChunks = 0x1004, m_ChunksNumber = 4,
         m_FreeChunksNumber = 3, m_pNextPool = 0,
         \<dots> = ([0x1024, 0x1044, 0x1064], [0x1004 :: 32 word])\<rparr> :: (32, chunk_lists) pool"
  let ?hf = "\<lparr>m_pPoolStart = 0, m_PoolSize = 132, m_pChunks = 4, m_ChunksNumber = 4,
         m_FreeChunksNumber = 3, m_pNextPool = 0,
         \<dots> = ([0x24, 0x44, 0x64], [4 :: 32 word])\<rparr> :: (32, chunk_lists) pool"
  have cs: "mem_GetChunkSize simple_env 0 = Inr 4" by (rule simple_chunk_sizes)
  have z: "mem_FreeChunksNumber after_init (unat (0 :: 32 word)) = 0" by (simp add: after_init_def)
  have A: "mem_PoolAllocChunk simple_env (mem_PoolForPoolHeaders after_init) = (0x1004, ?hp)"
    by (simp add: simple_env_sel simple_PoolAllocChunk_def after_init_def)
  have H: "mem_HeapAllocBlock simple_env (heap after_init)
          (mem_HeapRecommendAllocationSize simple_env (8 * 4 + sizeof_mword_t simple_env))
          MEM_HEAP_ALLOC_LONG_TERM = (0x1084, (0x10A8, 0x2000))"
    by (simp add: simple_env_sel simple_HeapAllocBlock_def after_init_def)
  have sp: "mem_SpaceForPoolForPoolHeaders after_init = 0x1000" by (simp add: after_init_def)
  have n: "m_ChunksNumber (mem_PoolInit simple_env 4 0x1084 36) = 8"
    by (simp add: simple_env_sel simple_PoolInit_class0)
  have nz: "mem_FreeChunksNumber after_alloc (unat (0 :: 32 word)) \<noteq> 0" by (simp add: after_alloc_def)
  have zf: "mem_FreeChunksNumber failed_init (unat (0 :: 32 word)) = 0" by (simp add: failed_init_def)
  have Af: "mem_PoolAllocChunk simple_env (mem_PoolForPoolHeaders failed_init) = (4, ?hf)"
    by (simp add: simple_env_sel simple_PoolAllocChunk_def failed_init_def)
  have Hf: "mem_HeapAllocBlock simple_env (heap failed_init)
          (mem_HeapRecommendAllocationSize simple_env (8 * 4 + sizeof_mword_t simple_env))
          MEM_HEAP_ALLOC_LONG_TERM = (0x1000, (0x1024, 0x1080))"
    by (simp add: simple_env_sel simple_HeapAllocBlock_def failed_init_def)
  have spf: "mem_SpaceForPoolForPoolHeaders failed_init = 0" by (simp add: failed_init_def)
  note g1 = growth_step[OF simple_contract cs, of after_init]
  note g2 = growth_step[OF simple_contract cs, of after_alloc]
  note g3 = growth_step[OF simple_contract cs, of failed_init]
  from g2 nz second_run
  have "mem_PoolForPoolHeaders after_second = mem_PoolForPoolHeaders after_alloc \<and>
        heap after_second = heap after_alloc \<and> mem_Pools after_second = mem_Pools after_alloc"
    by blast
  moreover from g3 zf Af Hf spf
  have "mem_PoolsAlloc simple_env 0 failed_init = Some (Inl NullDereference)" by simp
  moreover have "mem_Pools after_alloc 0 = 0x1004"
    "map_option m_pPoolStart (pool_mem after_alloc 0x1004) = Some 0x1084"
    "map_option m_PoolSize (pool_mem after_alloc 0x1004) = Some 36"
    "map_option m_pNextPool (pool_mem after_alloc 0x1004) = Some (mem_Pools after_init 0)"
    "mem_FreeChunksNumber after_alloc 0 = 8 - 1"
    by (simp_all add: after_alloc_def after_init_def)
  ultimately show ?thesis
    using g1 simple_contract cs z A H sp n nz zf Af Hf spf alloc_run second_run by simp
qed

lemma first_free_exists:
  "sum_list (map (pool_free m) as) \<noteq> 0 \<Longrightarrow> \<exists>a. first_free m as = Some a"
proof (induction as)
  case Nil
  then show ?case by simp
next
  case (Cons b bs)
  then show ?case by (cases "pool_free m b = 0") (auto simp: first_free_def)
qed

text \<open>
  C4 (failure semantics of allocate). In a reachable state, for a valid size class and
  collaborators that meet the contract, \<^verbatim>\<open>mem_PoolsAlloc\<close> returns (no assertion fails,
  no store faults and the search ends), and it returns \<^verbatim>\<open>NULL\<close> exactly when the
  aggregate counter of the class was zero at entry and either the pool of pool headers
  or the heap returned \<^verbatim>\<open>NULL\<close>. Two things are taken for granted of a growth step that
  gets both its header chunk and its block, and only of such a step: that
  \<^verbatim>\<open>mem_PoolsInit\<close> had obtained the block of the pool of pool headers, and that the pool
  initialised over the new block has a chunk.
\<close>

theorem alloc_failure_iff:
  assumes C: "pool_contract E pinv used" and R: "reachable E used s"
    and cs: "mem_GetChunkSize E c = Inr cs"
    and grow: "mem_FreeChunksNumber s (unat c) = 0 \<longrightarrow>
               fst (mem_PoolAllocChunk E (mem_PoolForPoolHeaders s)) \<noteq> 0 \<longrightarrow>
               fst (mem_HeapAllocBlock E (heap s)
                      (mem_HeapRecommendAllocationSize E (8 * cs + sizeof_mword_t E))
                      MEM_HEAP_ALLOC_LONG_TERM) \<noteq> 0 \<longrightarrow>
               mem_SpaceForPoolForPoolHeaders s \<noteq> 0 \<and>
               m_ChunksNumber (mem_PoolInit E cs
                 (fst (mem_HeapAllocBlock E (heap s)
                        (mem_HeapRecommendAllocationSize E (8 * cs + sizeof_mword_t E))
                        MEM_HEAP_ALLOC_LONG_TERM))
                 (mem_HeapRecommendAllocationSize E (8 * cs + sizeof_mword_t E))) \<noteq> 0"
  shows "\<exists>p s'. mem_PoolsAlloc E c s = Some (Inr (p, s')) \<and>
           (p = 0 \<longleftrightarrow>
              mem_FreeChunksNumber s (unat c) = 0 \<and>
              (fst (mem_PoolAllocChunk E (mem_PoolForPoolHeaders s)) = 0 \<or>
               fst (mem_HeapAllocBlock E (heap s)
                      (mem_HeapRecommendAllocationSize E (8 * cs + sizeof_mword_t E))
                      MEM_HEAP_ALLOC_LONG_TERM) = 0))"
proof (cases "mem_FreeChunksNumber s (unat c) = 0")
  case False
  from cs have c: "unat c < MEM_POOL_CHUNK_TYPE__COUNT E" by (rule mem_GetChunkSize_Inr)
  from reachable_pools_inv[OF C R] c obtain as where ci: "class_inv pinv used {} s (unat c) as"
    and sg: "seg (pool_mem s) (mem_Pools s (unat c)) as 0"
    by (rule pools_inv_seg)
  from ci False have "sum_list (map (pool_free (pool_mem s)) as) \<noteq> 0" by (simp add: class_inv_def)
  then obtain a where ff: "first_free (pool_mem s) as = Some a" by (auto dest: first_free_exists)
  then have a: "a \<in> set as" "pool_free (pool_mem s) a \<noteq> 0" by (auto dest: first_free_SomeD)
  with seg_mem[OF sg] obtain r where r: "pool_mem s a = Some r" by blast
  with a have nz: "m_FreeChunksNumber r \<noteq> 0" by (simp add: pool_free_def)
  from ci a r have "pinv r" by (auto simp: class_inv_def node_inv_def)
  obtain p r' where A: "mem_PoolAllocChunk E r = (p, r')" by (cases "mem_PoolAllocChunk E r")
  from contract_alloc(4)[OF C \<open>pinv r\<close> A nz] have p: "p \<noteq> 0" by simp
  from a have "as \<noteq> []" by auto
  with ff r A have "alloc_take E (unat c) s = Some (Inr (a, p,
      s\<lparr>mem_FreeChunksNumber := (mem_FreeChunksNumber s)(unat c := mem_FreeChunksNumber s (unat c) - 1),
        pool_mem := (pool_mem s)(a \<mapsto> r')\<rparr>))"
    unfolding alloc_take_seg[OF sg] by (simp add: case_list_ne)
  with cs False p show ?thesis by (simp add: mem_PoolsAlloc_def alloc_from_def)
next
  case True
  let ?sz = "mem_HeapRecommendAllocationSize E (8 * cs + sizeof_mword_t E)"
  obtain ps hp where A: "mem_PoolAllocChunk E (mem_PoolForPoolHeaders s) = (ps, hp)"
    by (cases "mem_PoolAllocChunk E (mem_PoolForPoolHeaders s)")
  obtain blk h where H: "mem_HeapAllocBlock E (heap s) ?sz MEM_HEAP_ALLOC_LONG_TERM = (blk, h)"
    by (cases "mem_HeapAllocBlock E (heap s) ?sz MEM_HEAP_ALLOC_LONG_TERM")
  show ?thesis
  proof (cases "ps = 0")
    case ps: True
    with alloc_header_fail[OF cs True] A True show ?thesis by simp
  next
    case ps: False
    show ?thesis
    proof (cases "blk = 0")
      case blk: True
      with alloc_block_fail[OF cs True A ps] H True A show ?thesis by simp
    next
      case blk: False
      from grow True A H ps blk have sp: "mem_SpaceForPoolForPoolHeaders s \<noteq> 0"
        and "m_ChunksNumber (mem_PoolInit E cs blk ?sz) \<noteq> 0" by simp_all
      from alloc_growth[OF C cs True A ps H blk sp this(2)] True A H ps blk
      show ?thesis by auto
    qed
  qed
qed

theorem alloc_failure_iff_witness:
  "pool_contract simple_env simple_pinv simple_used \<and>
   reachable simple_env simple_used after_init \<and>
   reachable simple_env simple_used tight_init \<and>
   mem_GetChunkSize simple_env 0 = Inr 4 \<and>
   mem_FreeChunksNumber after_init (unat (0 :: 32 word)) = 0 \<and>
   fst (mem_PoolAllocChunk simple_env (mem_PoolForPoolHeaders after_init)) = 0x1004 \<and>
   fst (mem_HeapAllocBlock simple_env (heap after_init) 36 MEM_HEAP_ALLOC_LONG_TERM) = 0x1084 \<and>
   mem_SpaceForPoolForPoolHeaders after_init = 0x1000 \<and>
   m_ChunksNumber (mem_PoolInit simple_env 4 0x1084 36) = 8 \<and>
   mem_PoolsAlloc simple_env 0 after_init = Some (Inr (0x1088, after_alloc)) \<and>
   mem_FreeChunksNumber tight_init (unat (0 :: 32 word)) = 0 \<and>
   fst (mem_PoolAllocChunk simple_env (mem_PoolForPoolHeaders tight_init)) = 0x1004 \<and>
   fst (mem_HeapAllocBlock simple_env (heap tight_init) 36 MEM_HEAP_ALLOC_LONG_TERM) = 0 \<and>
   (\<exists>s'. mem_PoolsAlloc simple_env 0 tight_init = Some (Inr (0, s')))"
proof -
  have R1: "reachable simple_env simple_used after_init" by (rule reach_init[OF init_run])
  have R2: "reachable simple_env simple_used tight_init" by (rule reach_init[OF tight_run])
  have cs: "mem_GetChunkSize simple_env 0 = Inr 4" by (rule simple_chunk_sizes)
  have sz: "mem_HeapRecommendAllocationSize simple_env (8 * 4 + sizeof_mword_t simple_env) = 36"
    by (simp add: simple_env_sel)
  have H1: "fst (mem_HeapAllocBlock simple_env (heap after_init) 36 MEM_HEAP_ALLOC_LONG_TERM) = 0x1084"
    by (simp add: simple_env_sel simple_HeapAllocBlock_def after_init_def)
  have H2: "fst (mem_HeapAllocBlock simple_env (heap tight_init) 36 MEM_HEAP_ALLOC_LONG_TERM) = 0"
    by (simp add: simple_env_sel simple_HeapAllocBlock_def tight_init_def)
  have n1: "m_ChunksNumber (mem_PoolInit simple_env 4 0x1084 36) = 8"
    by (simp add: simple_env_sel simple_PoolInit_class0)
  have sp: "mem_SpaceForPoolForPoolHeaders after_init = 0x1000" by (simp add: after_init_def)
  have A1: "fst (mem_PoolAllocChunk simple_env (mem_PoolForPoolHeaders after_init)) = 0x1004"
    by (simp add: simple_env_sel simple_PoolAllocChunk_def after_init_def)
  have A2: "fst (mem_PoolAllocChunk simple_env (mem_PoolForPoolHeaders tight_init)) = 0x1004"
    by (simp add: simple_env_sel simple_PoolAllocChunk_def tight_init_def)
  have z: "mem_FreeChunksNumber after_init (unat (0 :: 32 word)) = 0"
    "mem_FreeChunksNumber tight_init (unat (0 :: 32 word)) = 0"
    by (simp_all add: after_init_def tight_init_def)
  have g1: "mem_FreeChunksNumber after_init (unat (0 :: 32 word)) = 0 \<longrightarrow>
               fst (mem_PoolAllocChunk simple_env (mem_PoolForPoolHeaders after_init)) \<noteq> 0 \<longrightarrow>
               fst (mem_HeapAllocBlock simple_env (heap after_init)
                      (mem_HeapRecommendAllocationSize simple_env (8 * 4 + sizeof_mword_t simple_env))
                      MEM_HEAP_ALLOC_LONG_TERM) \<noteq> 0 \<longrightarrow>
               mem_SpaceForPoolForPoolHeaders after_init \<noteq> 0 \<and>
               m_ChunksNumber (mem_PoolInit simple_env 4
                 (fst (mem_HeapAllocBlock simple_env (heap after_init)
                        (mem_HeapRecommendAllocationSize simple_env (8 * 4 + sizeof_mword_t simple_env))
                        MEM_HEAP_ALLOC_LONG_TERM))
                 (mem_HeapRecommendAllocationSize simple_env (8 * 4 + sizeof_mword_t simple_env))) \<noteq> 0"
    unfolding sz H1 using sp n1 by simp
  have g2: "mem_FreeChunksNumber tight_init (unat (0 :: 32 word)) = 0 \<longrightarrow>
               fst (mem_PoolAllocChunk simple_env (mem_PoolForPoolHeaders tight_init)) \<noteq> 0 \<longrightarrow>
               fst (mem_HeapAllocBlock simple_env (heap tight_init)
                      (mem_HeapRecommendAllocationSize simple_env (8 * 4 + sizeof_mword_t simple_env))
                      MEM_HEAP_ALLOC_LONG_TERM) \<noteq> 0 \<longrightarrow>
               mem_SpaceForPoolForPoolHeaders tight_init \<noteq> 0 \<and>
               m_ChunksNumber (mem_PoolInit simple_env 4
                 (fst (mem_HeapAllocBlock simple_env (heap tight_init)
                        (mem_HeapRecommendAllocationSize simple_env (8 * 4 + sizeof_mword_t simple_env))
                        MEM_HEAP_ALLOC_LONG_TERM))
                 (mem_HeapRecommendAllocationSize simple_env (8 * 4 + sizeof_mword_t simple_env))) \<noteq> 0"
    unfolding sz H2 by simp
  from alloc_failure_iff[OF simple_contract R2 cs g2] z(2) H2
  have "\<exists>s'. mem_PoolsAlloc simple_env 0 tight_init = Some (Inr (0, s'))"
    unfolding sz by auto
  moreover note alloc_failure_iff[OF simple_contract R1 cs g1]
  ultimately show ?thesis
    using simple_contract R1 R2 cs n1 sp z A1 A2 H1 H2 alloc_run by simp
qed

lemma removeAll_split: "distinct (ys @ a # zs) \<Longrightarrow> removeAll a (ys @ a # zs) = ys @ zs"
  by (simp add: removeAll_id)

lemma free_find_ok:
  assumes "seg (pool_mem s) (mem_Pools s i) as 0" and "first_owner (pool_mem s) p 0 as = Some (a, q)"
  shows "free_find (pool_mem s) p (mem_Pools s i) 0 = Some (Inr (a, q))"
proof -
  from first_owner_SomeD[OF assms(2)] have "as \<noteq> []" by auto
  with assms(2) show ?thesis unfolding free_find_seg[OF assms(1)] by (simp add: case_list_ne)
qed

text \<open>
  C3 (free-path consolidation). In a reachable state let \<^verbatim>\<open>mem_PoolsFree\<close> be called for
  a chunk that the pool \<open>r\<close> at \<open>a\<close>, found by its search together with the previous pool
  \<open>q\<close>, has handed out. The call returns, and
  \<^item> if after the release the free count of the pool equals its chunk count, the pool
    is gone from the chain and the rest keeps its order; the head is now the link of
    \<open>r\<close> when \<open>r\<close> was first, else the head stays and the link of the previous pool is
    the link of \<open>r\<close>; the aggregate counter is the old one plus one less the chunk count
    of \<open>r\<close>; the block of \<open>r\<close> went to \<^verbatim>\<open>mem_HeapFreeBlock\<close> and the address \<open>a\<close> to
    \<^verbatim>\<open>mem_PoolFreeChunk\<close> of the pool of pool headers;
  \<^item> otherwise the chain and its heads are as before, the pool header at \<open>a\<close> is the
    released one, the counter is one more, and the heap and the pool of pool headers
    are untouched.
\<close>

theorem free_consolidation:
  assumes C: "pool_contract E pinv used" and R: "reachable E used s"
    and c: "unat c < MEM_POOL_CHUNK_TYPE__COUNT E" and ok: "free_ok used (unat c) p s"
  shows "\<exists>as a q r s'.
           pool_chain (pool_mem s) (mem_Pools s (unat c)) = Some as \<and>
           free_find (pool_mem s) p (mem_Pools s (unat c)) 0 = Some (Inr (a, q)) \<and>
           pool_mem s a = Some r \<and>
           mem_PoolsFree E c p s = Some (Inr s') \<and>
           (if m_FreeChunksNumber (mem_PoolFreeChunk E r p) = m_ChunksNumber (mem_PoolFreeChunk E r p)
            then pool_chain (pool_mem s') (mem_Pools s' (unat c)) = Some (removeAll a as) \<and>
                 (q = 0 \<longrightarrow> mem_Pools s' (unat c) = m_pNextPool r) \<and>
                 (q \<noteq> 0 \<longrightarrow> mem_Pools s' (unat c) = mem_Pools s (unat c) \<and>
                    map_option m_pNextPool (pool_mem s' q) = Some (m_pNextPool r)) \<and>
                 mem_FreeChunksNumber s' (unat c) =
                   mem_FreeChunksNumber s (unat c) + 1 - m_ChunksNumber r \<and>
                 heap s' = mem_HeapFreeBlock E (heap s) (m_pPoolStart r) \<and>
                 mem_PoolForPoolHeaders s' = mem_PoolFreeChunk E (mem_PoolForPoolHeaders s) a
            else pool_chain (pool_mem s') (mem_Pools s' (unat c)) = Some as \<and>
                 mem_Pools s' = mem_Pools s \<and>
                 pool_mem s' = (pool_mem s)(a \<mapsto> mem_PoolFreeChunk E r p) \<and>
                 mem_FreeChunksNumber s' (unat c) = mem_FreeChunksNumber s (unat c) + 1 \<and>
                 heap s' = heap s \<and>
                 mem_PoolForPoolHeaders s' = mem_PoolForPoolHeaders s)"
proof -
  note I = reachable_pools_inv[OF C R]
  then have B: "base_inv E pinv used {} s" by (simp add: pools_inv_def)
  from I c obtain as where ci: "class_inv pinv used {} s (unat c) as"
    and sg: "seg (pool_mem s) (mem_Pools s (unat c)) as 0"
    by (rule pools_inv_seg)
  from sg have pc: "pool_chain (pool_mem s) (mem_Pools s (unat c)) = Some as"
    by (simp add: pool_chain_seg)
  from c ok sg obtain ys zs a q r where as: "as = ys @ a # zs"
    and q: "q = (if ys = [] then 0 else last ys)"
    and r: "pool_mem s a = Some r" "p \<in> used r"
    and fo: "first_owner (pool_mem s) p 0 as = Some (a, q)"
    and step: "mem_PoolsFree E c p s =
       (if m_FreeChunksNumber (mem_PoolFreeChunk E r p) = m_ChunksNumber (mem_PoolFreeChunk E r p)
        then Some (free_pool E (unat c) a q (mem_PoolFreeChunk E r p)
               (s\<lparr>pool_mem := (pool_mem s)(a \<mapsto> mem_PoolFreeChunk E r p),
                  mem_FreeChunksNumber := (mem_FreeChunksNumber s)(unat c := mem_FreeChunksNumber s (unat c) + 1)\<rparr>))
        else Some (Inr
               (s\<lparr>pool_mem := (pool_mem s)(a \<mapsto> mem_PoolFreeChunk E r p),
                  mem_FreeChunksNumber := (mem_FreeChunksNumber s)(unat c := mem_FreeChunksNumber s (unat c) + 1)\<rparr>)))"
    by (rule free_step)
  note ff = free_find_ok[OF sg fo]
  from sg as have sg': "seg (pool_mem s) (mem_Pools s (unat c)) (ys @ a # zs) 0" by simp
  from path_distinct[OF sg'] have d: "distinct (ys @ a # zs)" .
  from seg_mem[OF sg'] q have q0: "q = 0 \<longleftrightarrow> ys = []" by (cases ys rule: rev_cases) auto
  let ?r' = "mem_PoolFreeChunk E r p"
  show ?thesis
  proof (cases "m_FreeChunksNumber ?r' = m_ChunksNumber ?r'")
    case True
    from C B c sg' r q True obtain s' where
      fp: "free_pool E (unat c) a q ?r'
       (s\<lparr>pool_mem := (pool_mem s)(a \<mapsto> ?r'),
          mem_FreeChunksNumber := (mem_FreeChunksNumber s)(unat c := mem_FreeChunksNumber s (unat c) + 1)\<rparr>) = Inr s'"
      and sg2: "seg (pool_mem s') (mem_Pools s' (unat c)) (ys @ zs) 0"
      and cnt: "mem_FreeChunksNumber s' = (mem_FreeChunksNumber s)(unat c := mem_FreeChunksNumber s (unat c) + 1 - m_ChunksNumber r)"
      and hp: "heap s' = mem_HeapFreeBlock E (heap s) (m_pPoolStart r)"
        "mem_PoolForPoolHeaders s' = mem_PoolFreeChunk E (mem_PoolForPoolHeaders s) a"
      and hd: "ys = [] \<longrightarrow> mem_Pools s' (unat c) = m_pNextPool r"
        "ys \<noteq> [] \<longrightarrow> mem_Pools s' (unat c) = mem_Pools s (unat c) \<and>
           (\<exists>rp. pool_mem s q = Some rp \<and> pool_mem s' q = Some (rp\<lparr>m_pNextPool := m_pNextPool r\<rparr>))"
      by (rule consolidate_base) blast
    have "removeAll a as = ys @ zs" unfolding as by (rule removeAll_split[OF d])
    with sg2 have "pool_chain (pool_mem s') (mem_Pools s' (unat c)) = Some (removeAll a as)"
      by (simp only: pool_chain_seg)
    moreover from step True fp have "mem_PoolsFree E c p s = Some (Inr s')" by simp
    moreover from hd q0 have "q = 0 \<longrightarrow> mem_Pools s' (unat c) = m_pNextPool r"
      "q \<noteq> 0 \<longrightarrow> mem_Pools s' (unat c) = mem_Pools s (unat c) \<and>
         map_option m_pNextPool (pool_mem s' q) = Some (m_pNextPool r)" by auto
    ultimately show ?thesis using pc ff r(1) True cnt hp by (intro exI[of _ as] exI[of _ a] exI[of _ q] exI[of _ r] exI[of _ s']) simp
  next
    case False
    let ?s' = "s\<lparr>pool_mem := (pool_mem s)(a \<mapsto> ?r'),
                  mem_FreeChunksNumber := (mem_FreeChunksNumber s)(unat c := mem_FreeChunksNumber s (unat c) + 1)\<rparr>"
    from ci as r have "pinv r" by (auto simp: class_inv_def node_inv_def)
    from contract_free(3)[OF C this r(2)] have "m_pNextPool ?r' = m_pNextPool r"
      by (simp add: same_pool_def)
    from seg_upd_link[where m = "pool_mem s", OF r(1) this] sg
    have "pool_chain (pool_mem ?s') (mem_Pools ?s' (unat c)) = Some as"
      by (simp add: pool_chain_seg)
    moreover from step False have "mem_PoolsFree E c p s = Some (Inr ?s')" by simp
    ultimately show ?thesis using pc ff r(1) False
      by (intro exI[of _ as] exI[of _ a] exI[of _ q] exI[of _ r] exI[of _ ?s']) simp
  qed
qed

theorem free_consolidation_witness:
  "pool_contract simple_env simple_pinv simple_used \<and>
   unat (0 :: 32 word) < MEM_POOL_CHUNK_TYPE__COUNT simple_env \<and>
   reachable simple_env simple_used after_alloc \<and>
   free_ok simple_used (unat (0 :: 32 word)) 0x1088 after_alloc \<and>
   pool_chain (pool_mem after_alloc) (mem_Pools after_alloc (unat (0 :: 32 word))) = Some [0x1004] \<and>
   free_find (pool_mem after_alloc) 0x1088 (mem_Pools after_alloc (unat (0 :: 32 word))) 0 =
     Some (Inr (0x1004, 0)) \<and>
   mem_PoolsFree simple_env 0 0x1088 after_alloc = Some (Inr after_free) \<and>
   pool_chain (pool_mem after_free) (mem_Pools after_free (unat (0 :: 32 word))) = Some [] \<and>
   mem_FreeChunksNumber after_free (unat (0 :: 32 word)) = 7 + 1 - 8 \<and>
   m_FreeChunksNumber (mem_PoolForPoolHeaders after_free) = 4 \<and>
   reachable simple_env simple_used after_second \<and>
   free_ok simple_used (unat (0 :: 32 word)) 0x108C after_second \<and>
   mem_PoolsFree simple_env 0 0x108C after_second = Some (Inr after_alloc) \<and>
   mem_FreeChunksNumber after_alloc (unat (0 :: 32 word)) =
     mem_FreeChunksNumber after_second (unat (0 :: 32 word)) + 1 \<and>
   mem_PoolForPoolHeaders after_alloc = mem_PoolForPoolHeaders after_second"
proof -
  have K: "unat (0 :: 32 word) < MEM_POOL_CHUNK_TYPE__COUNT simple_env" by (simp add: simple_env_sel)
  have R1: "reachable simple_env simple_used after_alloc"
    by (rule reach_alloc[OF reach_init[OF init_run] alloc_run])
  have R2: "reachable simple_env simple_used after_second"
    by (rule reach_alloc[OF R1 second_run])
  note f1 = free_consolidation[OF simple_contract R1 K free_ok_first]
  note f2 = free_consolidation[OF simple_contract R2 K free_ok_second]
  have e: "pool_chain (pool_mem after_alloc) (mem_Pools after_alloc (unat (0 :: 32 word))) = Some [0x1004]"
    "free_find (pool_mem after_alloc) 0x1088 (mem_Pools after_alloc (unat (0 :: 32 word))) 0 =
       Some (Inr (0x1004, 0))"
    "pool_chain (pool_mem after_free) (mem_Pools after_free (unat (0 :: 32 word))) = Some []"
    "mem_FreeChunksNumber after_free (unat (0 :: 32 word)) = 7 + 1 - 8"
    "m_FreeChunksNumber (mem_PoolForPoolHeaders after_free) = 4"
    "mem_FreeChunksNumber after_alloc (unat (0 :: 32 word)) =
       mem_FreeChunksNumber after_second (unat (0 :: 32 word)) + 1"
    "mem_PoolForPoolHeaders after_alloc = mem_PoolForPoolHeaders after_second"
    by (simp_all add: pool_chain.simps free_find.simps pool_contains_def
        after_alloc_def after_free_def after_second_def)
  from f1 f2 e simple_contract K R1 R2 free_ok_first free_ok_second free_run unfree_run
  show ?thesis by simp
qed

lemma untouchedI:
  assumes "seg (pool_mem s) (mem_Pools s i) as 0"
    and "mem_Pools s' i = mem_Pools s i" and "mem_FreeChunksNumber s' i = mem_FreeChunksNumber s i"
    and "mem_SpaceForPoolForPoolHeaders s' = mem_SpaceForPoolForPoolHeaders s"
    and "\<forall>a\<in>set as. pool_mem s' a = pool_mem s a"
  shows "untouched i s s'"
proof -
  from assms(5) have "seg (pool_mem s') (mem_Pools s i) as 0 \<longleftrightarrow> seg (pool_mem s) (mem_Pools s i) as 0"
    by (rule seg_cong)
  with assms show ?thesis unfolding untouched_def pool_chain_seg by auto
qed

lemma untouched_trans:
  assumes "untouched i s s1" and "untouched i s1 s2"
  shows "untouched i s s2"
proof -
  from assms(1) obtain as where a: "mem_Pools s1 i = mem_Pools s i"
    "mem_FreeChunksNumber s1 i = mem_FreeChunksNumber s i"
    "mem_SpaceForPoolForPoolHeaders s1 = mem_SpaceForPoolForPoolHeaders s"
    "seg (pool_mem s) (mem_Pools s i) as 0" "seg (pool_mem s1) (mem_Pools s1 i) as 0"
    "\<forall>a\<in>set as. pool_mem s1 a = pool_mem s a"
    unfolding untouched_def pool_chain_seg by blast
  from assms(2) obtain bs where b: "mem_Pools s2 i = mem_Pools s1 i"
    "mem_FreeChunksNumber s2 i = mem_FreeChunksNumber s1 i"
    "mem_SpaceForPoolForPoolHeaders s2 = mem_SpaceForPoolForPoolHeaders s1"
    "seg (pool_mem s1) (mem_Pools s1 i) bs 0"
    "\<forall>a\<in>set bs. pool_mem s2 a = pool_mem s1 a"
    unfolding untouched_def pool_chain_seg by blast
  from a(5) b(4) have "as = bs" by (rule path_unique)
  with a b show ?thesis by (intro untouchedI[OF a(4)]) simp_all
qed

lemma base_inv_chains:
  assumes "base_inv E pinv used X s"
    and "i < MEM_POOL_CHUNK_TYPE__COUNT E" and "j < MEM_POOL_CHUNK_TYPE__COUNT E" and "i \<noteq> j"
  obtains as bs where "seg (pool_mem s) (mem_Pools s i) as 0" "seg (pool_mem s) (mem_Pools s j) bs 0"
    "set as \<inter> set bs = {}" "set as \<subseteq> used (mem_PoolForPoolHeaders s)"
  using assms unfolding base_inv_def class_inv_def by metis

lemma alloc_take_untouched:
  assumes I: "base_inv E pinv used X s"
    and i: "i < MEM_POOL_CHUNK_TYPE__COUNT E" and j: "j < MEM_POOL_CHUNK_TYPE__COUNT E" and ij: "i \<noteq> j"
    and T: "alloc_take E j s = Some (Inr (a, p, s'))"
  shows "untouched i s s'"
proof -
  from I i j ij obtain as bs where sg: "seg (pool_mem s) (mem_Pools s i) as 0"
    "seg (pool_mem s) (mem_Pools s j) bs 0" and dj: "set as \<inter> set bs = {}"
    by (rule base_inv_chains)
  from sg(2) T obtain r r' where a: "a \<in> set bs"
    and s': "s' = s\<lparr>mem_FreeChunksNumber := (mem_FreeChunksNumber s)(j := mem_FreeChunksNumber s j - 1),
            pool_mem := (pool_mem s)(a \<mapsto> r')\<rparr>"
    by (rule alloc_take_SomeD)
  from a dj have "a \<notin> set as" by auto
  with ij show ?thesis by (intro untouchedI[OF sg(1)]) (auto simp: s')
qed

lemma alloc_grow_untouched:
  assumes C: "pool_contract E pinv used" and I: "base_inv E pinv used X s"
    and i: "i < MEM_POOL_CHUNK_TYPE__COUNT E" and j: "j < MEM_POOL_CHUNK_TYPE__COUNT E" and ij: "i \<noteq> j"
    and G: "alloc_grow E j cs s = Inr (Inr s1)"
  shows "untouched i s s1"
proof -
  from I i j ij obtain as bs where sg: "seg (pool_mem s) (mem_Pools s i) as 0"
    and sub: "set as \<subseteq> used (mem_PoolForPoolHeaders s)"
    by (rule base_inv_chains)
  from I have hp0: "pinv (mem_PoolForPoolHeaders s)" by (simp add: base_inv_def)
  from G obtain ps hp blk h where A: "mem_PoolAllocChunk E (mem_PoolForPoolHeaders s) = (ps, hp)"
    and ps: "ps \<noteq> 0"
    and s1: "s1 = s\<lparr>mem_PoolForPoolHeaders := hp, heap := h,
            pool_mem := (pool_mem s)(ps \<mapsto>
              (mem_PoolInit E cs blk (mem_HeapRecommendAllocationSize E (8 * cs + sizeof_mword_t E)))
                \<lparr>m_pNextPool := mem_Pools s j\<rparr>),
            mem_Pools := (mem_Pools s)(j := ps),
            mem_FreeChunksNumber := (mem_FreeChunksNumber s)
              (j := mem_FreeChunksNumber s j + m_FreeChunksNumber
                 (mem_PoolInit E cs blk (mem_HeapRecommendAllocationSize E (8 * cs + sizeof_mword_t E))))\<rparr>"
    by (rule alloc_grow_Inr)
  note ca = contract_alloc[OF C hp0 A]
  from ca(3) ps have "m_FreeChunksNumber (mem_PoolForPoolHeaders s) \<noteq> 0" by auto
  from ca(4)[OF this] sub have "ps \<notin> set as" by auto
  with ij show ?thesis by (intro untouchedI[OF sg]) (auto simp: s1)
qed

lemma untouched_header:
  assumes "base_inv E pinv used X s" and "i < MEM_POOL_CHUNK_TYPE__COUNT E"
  shows "untouched i s (s\<lparr>mem_PoolForPoolHeaders := hp, heap := h\<rparr>)"
proof -
  from assms obtain as where "seg (pool_mem s) (mem_Pools s i) as 0"
    unfolding base_inv_def class_inv_def by blast
  then show ?thesis by (rule untouchedI) simp_all
qed

lemma alloc_from_untouched:
  assumes C: "pool_contract E pinv used" and I: "pools_inv E pinv used s"
    and i: "i < MEM_POOL_CHUNK_TYPE__COUNT E" and ij: "i \<noteq> unat c"
    and A: "alloc_from E c s = Some (Inr (a, p, s'))"
  shows "untouched i s s'"
proof -
  from I have B: "base_inv E pinv used {} s" by (simp add: pools_inv_def)
  from A show ?thesis
  proof (cases rule: alloc_from_cases)
    case (take cs)
    from take(1) have c: "unat c < MEM_POOL_CHUNK_TYPE__COUNT E" by (rule mem_GetChunkSize_Inr)
    from alloc_take_untouched[OF B i c ij take(3)] show ?thesis .
  next
    case (fail cs)
    from fail(3) show ?thesis
    proof (cases rule: alloc_grow_Inl)
      case (header hp)
      from untouched_header[OF B i, where hp = hp and h = "heap s"] header(3) show ?thesis by simp
    next
      case (block ps hp h)
      from untouched_header[OF B i, where hp = hp and h = h] block(5) show ?thesis by simp
    qed
  next
    case (grow cs s1)
    from grow(1) have c: "unat c < MEM_POOL_CHUNK_TYPE__COUNT E" by (rule mem_GetChunkSize_Inr)
    from alloc_grow_Inr_base[OF C B c grow(3)]
    have B1: "base_inv E pinv used {mem_Pools s1 (unat c)} s1" .
    from alloc_grow_untouched[OF C B i c ij grow(3)] alloc_take_untouched[OF B1 i c ij grow(4)]
    show ?thesis by (rule untouched_trans)
  qed
qed

lemma free_pool_frame:
  assumes "free_pool E c a q r s = Inr s'"
  shows "(\<forall>i. i \<noteq> c \<longrightarrow> mem_Pools s' i = mem_Pools s i \<and> mem_FreeChunksNumber s' i = mem_FreeChunksNumber s i)"
    and "mem_SpaceForPoolForPoolHeaders s' = mem_SpaceForPoolForPoolHeaders s"
    and "\<forall>b. b \<noteq> q \<longrightarrow> pool_mem s' b = pool_mem s b"
  using assms by (auto simp: free_pool_def split: if_splits option.splits)

lemma mem_PoolsFree_untouched:
  assumes I: "pools_inv E pinv used s"
    and i: "i < MEM_POOL_CHUNK_TYPE__COUNT E" and ij: "i \<noteq> unat c"
    and F: "mem_PoolsFree E c p s = Some (Inr s')"
  shows "untouched i s s'"
proof -
  from F have c: "unat c < MEM_POOL_CHUNK_TYPE__COUNT E" by (rule mem_PoolsFree_bound)
  from I have B: "base_inv E pinv used {} s" by (simp add: pools_inv_def)
  from B i c ij obtain bs as where sgi: "seg (pool_mem s) (mem_Pools s i) bs 0"
    and sg: "seg (pool_mem s) (mem_Pools s (unat c)) as 0" and dj: "set bs \<inter> set as = {}"
    by (rule base_inv_chains)
  from F obtain a q r where fo: "first_owner (pool_mem s) p 0 as = Some (a, q)"
    and r: "pool_mem s a = Some r"
    and s': "s' = s\<lparr>pool_mem := (pool_mem s)(a \<mapsto> mem_PoolFreeChunk E r p),
                  mem_FreeChunksNumber := (mem_FreeChunksNumber s)(unat c := mem_FreeChunksNumber s (unat c) + 1)\<rparr> \<or>
       free_pool E (unat c) a q (mem_PoolFreeChunk E r p)
         (s\<lparr>pool_mem := (pool_mem s)(a \<mapsto> mem_PoolFreeChunk E r p),
            mem_FreeChunksNumber := (mem_FreeChunksNumber s)(unat c := mem_FreeChunksNumber s (unat c) + 1)\<rparr>) = Inr s'"
    unfolding mem_PoolsFree_seg[OF c sg]
    by (auto split: list.splits option.splits if_splits)
  from first_owner_SomeD[OF fo] obtain ys zs where
    as: "as = ys @ a # zs" "q = (if ys = [] then 0 else last ys)" by blast
  from as have a: "a \<in> set as" and q: "q = 0 \<or> q \<in> set as" by auto
  from sgi have "0 \<notin> set bs" by (auto dest: seg_mem)
  with a q dj have nin: "\<forall>b\<in>set bs. b \<noteq> a \<and> b \<noteq> q" by auto
  from s' show ?thesis
  proof
    assume "s' = s\<lparr>pool_mem := (pool_mem s)(a \<mapsto> mem_PoolFreeChunk E r p),
                  mem_FreeChunksNumber := (mem_FreeChunksNumber s)(unat c := mem_FreeChunksNumber s (unat c) + 1)\<rparr>"
    then show ?thesis using ij nin by (intro untouchedI[OF sgi]) auto
  next
    assume "free_pool E (unat c) a q (mem_PoolFreeChunk E r p)
         (s\<lparr>pool_mem := (pool_mem s)(a \<mapsto> mem_PoolFreeChunk E r p),
            mem_FreeChunksNumber := (mem_FreeChunksNumber s)(unat c := mem_FreeChunksNumber s (unat c) + 1)\<rparr>) = Inr s'"
    from free_pool_frame[OF this] ij nin show ?thesis
      by (intro untouchedI[OF sgi]) auto
  qed
qed

text \<open>
  C10 (frame property across size classes). In a reachable state a returning call of
  \<^verbatim>\<open>mem_PoolsAlloc\<close> (whether it hands out a chunk or \<^verbatim>\<open>NULL\<close>) or of \<^verbatim>\<open>mem_PoolsFree\<close>
  for the size class \<open>c\<close> leaves, for every other size class \<open>i\<close>, the chain head
  \<^verbatim>\<open>mem_Pools[i]\<close>, the counter \<^verbatim>\<open>mem_FreeChunksNumber[i]\<close>, the chain of \<open>i\<close> and every pool
  header on it as they were; the block of the pool of pool headers stays the same too.
\<close>

theorem class_frame:
  assumes "pool_contract E pinv used" and "reachable E used s"
    and "i < MEM_POOL_CHUNK_TYPE__COUNT E" and "i \<noteq> unat c"
    and "mem_PoolsAlloc E c s = Some (Inr (p, s')) \<or> mem_PoolsFree E c p s = Some (Inr s')"
  shows "mem_Pools s' i = mem_Pools s i \<and>
         mem_FreeChunksNumber s' i = mem_FreeChunksNumber s i \<and>
         mem_SpaceForPoolForPoolHeaders s' = mem_SpaceForPoolForPoolHeaders s \<and>
         (\<exists>as. pool_chain (pool_mem s) (mem_Pools s i) = Some as \<and>
               pool_chain (pool_mem s') (mem_Pools s' i) = Some as \<and>
               (\<forall>a\<in>set as. pool_mem s' a = pool_mem s a))"
proof -
  note I = reachable_pools_inv[OF assms(1,2)]
  from assms(5) have "untouched i s s'"
  proof
    assume "mem_PoolsAlloc E c s = Some (Inr (p, s'))"
    then obtain a where "alloc_from E c s = Some (Inr (a, p, s'))" by (rule mem_PoolsAlloc_SomeD)
    from alloc_from_untouched[OF assms(1) I assms(3,4) this] show ?thesis .
  next
    assume "mem_PoolsFree E c p s = Some (Inr s')"
    with I assms(3,4) show ?thesis by (rule mem_PoolsFree_untouched)
  qed
  then show ?thesis unfolding untouched_def by auto
qed

theorem class_frame_witness:
  "pool_contract simple_env simple_pinv simple_used \<and>
   reachable simple_env simple_used after_alloc \<and>
   (0 :: nat) < MEM_POOL_CHUNK_TYPE__COUNT simple_env \<and> (0 :: nat) \<noteq> unat (1 :: 32 word) \<and>
   mem_PoolsAlloc simple_env 1 after_alloc = Some (Inr (0x10AC, after_other)) \<and>
   mem_Pools after_other 0 = 0x1004 \<and> mem_Pools after_alloc 0 = 0x1004 \<and>
   mem_FreeChunksNumber after_other 0 = 7 \<and> mem_FreeChunksNumber after_alloc 0 = 7 \<and>
   pool_chain (pool_mem after_alloc) (mem_Pools after_alloc 0) = Some [0x1004] \<and>
   pool_chain (pool_mem after_other) (mem_Pools after_other 0) = Some [0x1004] \<and>
   pool_mem after_other 0x1004 = pool_mem after_alloc 0x1004 \<and>
   mem_Pools after_other 1 \<noteq> mem_Pools after_alloc 1"
proof -
  have K: "(0 :: nat) < MEM_POOL_CHUNK_TYPE__COUNT simple_env" "(0 :: nat) \<noteq> unat (1 :: 32 word)"
    by (simp_all add: simple_env_sel)
  have R: "reachable simple_env simple_used after_alloc"
    by (rule reach_alloc[OF reach_init[OF init_run] alloc_run])
  have e: "mem_Pools after_alloc 0 = 0x1004" "mem_FreeChunksNumber after_alloc 0 = 7"
    "pool_chain (pool_mem after_alloc) (mem_Pools after_alloc 0) = Some [0x1004]"
    "mem_Pools after_other 1 \<noteq> mem_Pools after_alloc 1"
    by (simp_all add: pool_chain.simps after_alloc_def after_other_def)
  from class_frame[OF simple_contract R K disjI1[OF other_run]] e simple_contract R K other_run
  show ?thesis by auto
qed

lemma alloc_from_take:
  assumes C: "pool_contract E pinv used" and B: "base_inv E pinv used {} s"
    and A: "alloc_from E c s = Some (Inr (a, p, s'))" and p: "p \<noteq> 0"
  obtains (plain) "unat c < MEM_POOL_CHUNK_TYPE__COUNT E" "mem_FreeChunksNumber s (unat c) \<noteq> 0"
      "alloc_take E (unat c) s = Some (Inr (a, p, s'))"
  | (grown) cs s1 where "unat c < MEM_POOL_CHUNK_TYPE__COUNT E" "mem_FreeChunksNumber s (unat c) = 0"
      "alloc_grow E (unat c) cs s = Inr (Inr s1)" "base_inv E pinv used {mem_Pools s1 (unat c)} s1"
      "alloc_take E (unat c) s1 = Some (Inr (a, p, s'))"
proof -
  from A show thesis
  proof (cases rule: alloc_from_cases)
    case (take cs)
    from take(1) have c: "unat c < MEM_POOL_CHUNK_TYPE__COUNT E" by (rule mem_GetChunkSize_Inr)
    from c take(2,3) show thesis by (rule plain)
  next
    case (fail cs)
    from fail(3) have "p = 0" by (cases rule: alloc_grow_Inl) auto
    with p show thesis by simp
  next
    case (grow cs s1)
    from grow(1) have c: "unat c < MEM_POOL_CHUNK_TYPE__COUNT E" by (rule mem_GetChunkSize_Inr)
    from c grow(2,3) alloc_grow_Inr_base[OF C B c grow(3)] grow(4) show thesis by (rule grown)
  qed
qed

text \<open>
  Taking a chunk from the pool at \<open>a\<close> and giving it back at once, when the search of
  \<^verbatim>\<open>mem_PoolsFree\<close> arrives at \<open>a\<close>.
\<close>

lemma take_release:
  fixes sg :: "('a :: len, 'z, 'h) mem_state"
  assumes C: "pool_contract E pinv used" and B: "base_inv E pinv used X sg"
    and c: "unat c < MEM_POOL_CHUNK_TYPE__COUNT E"
    and T: "alloc_take E (unat c) sg = Some (Inr (a, p, s'))"
    and I': "base_inv E pinv used {} s'"
    and FF: "free_find (pool_mem s') p (mem_Pools s' (unat c)) 0 = Some (Inr (a, q))"
  obtains as r s'' where "seg (pool_mem sg) (mem_Pools sg (unat c)) as 0"
    "first_free (pool_mem sg) as = Some a" "pool_mem sg a = Some r"
    "a \<notin> X \<longrightarrow> m_FreeChunksNumber r \<noteq> m_ChunksNumber r"
    "mem_PoolsFree E c p s' = Some (Inr s'')"
    "mem_FreeChunksNumber s'' (unat c) =
       (if m_FreeChunksNumber r = m_ChunksNumber r
        then mem_FreeChunksNumber sg (unat c) - m_ChunksNumber r
        else mem_FreeChunksNumber sg (unat c))"
proof -
  from B c obtain as where ci: "class_inv pinv used X sg (unat c) as"
    unfolding base_inv_def by blast
  then have sg: "seg (pool_mem sg) (mem_Pools sg (unat c)) as 0" by (simp add: class_inv_def)
  from sg T obtain r r' where ff: "first_free (pool_mem sg) as = Some a" and a: "a \<in> set as"
    and r: "pool_mem sg a = Some r" and nz: "m_FreeChunksNumber r \<noteq> 0"
    and A: "mem_PoolAllocChunk E r = (p, r')"
    and s': "s' = sg\<lparr>mem_FreeChunksNumber := (mem_FreeChunksNumber sg)(unat c := mem_FreeChunksNumber sg (unat c) - 1),
            pool_mem := (pool_mem sg)(a \<mapsto> r')\<rparr>"
    by (rule alloc_take_SomeD)
  from ci a r have n: "node_inv pinv X a r" by (auto simp: class_inv_def)
  then have pr: "pinv r" by (simp add: node_inv_def)
  note ca = contract_alloc[OF C pr A]
  from ca(4)[OF nz] have pu: "p \<in> used r'" and fr': "m_FreeChunksNumber r' = m_FreeChunksNumber r - 1"
    by auto
  from s' have r': "pool_mem s' a = Some r'" by simp
  note cf = contract_free[OF C ca(1) pu]
  from cf(5) fr' have f2: "m_FreeChunksNumber (mem_PoolFreeChunk E r' p) = m_FreeChunksNumber r" by simp
  from cf(3) ca(2) have t2: "m_ChunksNumber (mem_PoolFreeChunk E r' p) = m_ChunksNumber r"
    and t1: "m_ChunksNumber r' = m_ChunksNumber r"
    by (simp_all add: same_pool_def)
  from FF r' pu have ok: "free_ok used (unat c) p s'" by (simp add: free_ok_def)
  from I' c obtain as' where sg': "seg (pool_mem s') (mem_Pools s' (unat c)) as' 0"
    unfolding base_inv_def class_inv_def by blast
  from c ok sg' obtain ys zs a2 q2 r2 where as': "as' = ys @ a2 # zs"
    and q2: "q2 = (if ys = [] then 0 else last ys)"
    and r2: "pool_mem s' a2 = Some r2"
    and fo: "first_owner (pool_mem s') p 0 as' = Some (a2, q2)"
    and step: "mem_PoolsFree E c p s' =
       (if m_FreeChunksNumber (mem_PoolFreeChunk E r2 p) = m_ChunksNumber (mem_PoolFreeChunk E r2 p)
        then Some (free_pool E (unat c) a2 q2 (mem_PoolFreeChunk E r2 p)
               (s'\<lparr>pool_mem := (pool_mem s')(a2 \<mapsto> mem_PoolFreeChunk E r2 p),
                  mem_FreeChunksNumber := (mem_FreeChunksNumber s')(unat c := mem_FreeChunksNumber s' (unat c) + 1)\<rparr>))
        else Some (Inr
               (s'\<lparr>pool_mem := (pool_mem s')(a2 \<mapsto> mem_PoolFreeChunk E r2 p),
                  mem_FreeChunksNumber := (mem_FreeChunksNumber s')(unat c := mem_FreeChunksNumber s' (unat c) + 1)\<rparr>)))"
    by (rule free_step)
  from as' have "as' \<noteq> []" by simp
  with FF fo have "a2 = a" "q2 = q"
    unfolding free_find_seg[OF sg'] by (simp_all add: case_list_ne)
  with r2 r' have "r2 = r'" by simp
  note e = \<open>a2 = a\<close> \<open>q2 = q\<close> \<open>r2 = r'\<close>
  from s' have cnt: "mem_FreeChunksNumber s' (unat c) + 1 = mem_FreeChunksNumber sg (unat c)" by simp
  from n nz have ex: "a \<notin> X \<longrightarrow> m_FreeChunksNumber r \<noteq> m_ChunksNumber r"
    by (auto simp: node_inv_def idle_pool_def)
  show thesis
  proof (cases "m_FreeChunksNumber r = m_ChunksNumber r")
    case True
    with f2 t2 have full: "m_FreeChunksNumber (mem_PoolFreeChunk E r' p) = m_ChunksNumber (mem_PoolFreeChunk E r' p)"
      by simp
    from sg' as' e have sg2: "seg (pool_mem s') (mem_Pools s' (unat c)) (ys @ a # zs) 0" by simp
    from q2 e have q: "q = (if ys = [] then 0 else last ys)" by simp
    from C I' c sg2 r' pu q full obtain s'' where
      fp: "free_pool E (unat c) a q (mem_PoolFreeChunk E r' p)
       (s'\<lparr>pool_mem := (pool_mem s')(a \<mapsto> mem_PoolFreeChunk E r' p),
          mem_FreeChunksNumber := (mem_FreeChunksNumber s')(unat c := mem_FreeChunksNumber s' (unat c) + 1)\<rparr>) = Inr s''"
      and cn: "mem_FreeChunksNumber s'' = (mem_FreeChunksNumber s')(unat c := mem_FreeChunksNumber s' (unat c) + 1 - m_ChunksNumber r')"
      by (rule consolidate_base) blast
    from step e full fp have F: "mem_PoolsFree E c p s' = Some (Inr s'')" by simp
    from cn cnt t1 True have "mem_FreeChunksNumber s'' (unat c) =
       (if m_FreeChunksNumber r = m_ChunksNumber r
        then mem_FreeChunksNumber sg (unat c) - m_ChunksNumber r
        else mem_FreeChunksNumber sg (unat c))" by simp
    with sg ff r ex F show thesis by (rule that)
  next
    case False
    with f2 t2 have nf: "m_FreeChunksNumber (mem_PoolFreeChunk E r' p) \<noteq> m_ChunksNumber (mem_PoolFreeChunk E r' p)"
      by simp
    let ?s2 = "s'\<lparr>pool_mem := (pool_mem s')(a \<mapsto> mem_PoolFreeChunk E r' p),
                  mem_FreeChunksNumber := (mem_FreeChunksNumber s')(unat c := mem_FreeChunksNumber s' (unat c) + 1)\<rparr>"
    from step e nf have F: "mem_PoolsFree E c p s' = Some (Inr ?s2)" by simp
    from cnt False have "mem_FreeChunksNumber ?s2 (unat c) =
       (if m_FreeChunksNumber r = m_ChunksNumber r
        then mem_FreeChunksNumber sg (unat c) - m_ChunksNumber r
        else mem_FreeChunksNumber sg (unat c))" by simp
    with sg ff r ex F show thesis by (rule that)
  qed
qed

lemma round_trip_from:
  fixes s :: "('a :: len, 'z, 'h) mem_state"
  assumes C: "pool_contract E pinv used" and I: "pools_inv E pinv used s"
    and A: "alloc_from E c s = Some (Inr (a, p, s'))" and p: "p \<noteq> 0"
    and FF: "free_find (pool_mem s') p (mem_Pools s' (unat c)) 0 = Some (Inr (a, q))"
  shows "\<exists>s''. mem_PoolsFree E c p s' = Some (Inr s'') \<and>
           mem_FreeChunksNumber s'' (unat c) = mem_FreeChunksNumber s (unat c)"
proof -
  from I have B: "base_inv E pinv used {} s" by (simp add: pools_inv_def)
  from alloc_from_pools_inv[OF C I A] have B': "base_inv E pinv used {} s'" by (simp add: pools_inv_def)
  from C B A p show ?thesis
  proof (cases rule: alloc_from_take)
    case plain
    from C B plain(1,3) B' FF obtain as r s'' where
      "seg (pool_mem s) (mem_Pools s (unat c)) as 0"
      "first_free (pool_mem s) as = Some a" "pool_mem s a = Some r"
      "a \<notin> {} \<longrightarrow> m_FreeChunksNumber r \<noteq> m_ChunksNumber r"
      "mem_PoolsFree E c p s' = Some (Inr s'')"
      "mem_FreeChunksNumber s'' (unat c) =
       (if m_FreeChunksNumber r = m_ChunksNumber r
        then mem_FreeChunksNumber s (unat c) - m_ChunksNumber r
        else mem_FreeChunksNumber s (unat c))"
      by (rule take_release)
    then show ?thesis by auto
  next
    case (grown cs s1)
    from grown(3) obtain ps hp blk h where
      s1: "s1 = s\<lparr>mem_PoolForPoolHeaders := hp, heap := h,
            pool_mem := (pool_mem s)(ps \<mapsto>
              (mem_PoolInit E cs blk (mem_HeapRecommendAllocationSize E (8 * cs + sizeof_mword_t E)))
                \<lparr>m_pNextPool := mem_Pools s (unat c)\<rparr>),
            mem_Pools := (mem_Pools s)(unat c := ps),
            mem_FreeChunksNumber := (mem_FreeChunksNumber s)
              (unat c := mem_FreeChunksNumber s (unat c) + m_FreeChunksNumber
                 (mem_PoolInit E cs blk (mem_HeapRecommendAllocationSize E (8 * cs + sizeof_mword_t E))))\<rparr>"
      by (rule alloc_grow_Inr)
    let ?r0 = "mem_PoolInit E cs blk (mem_HeapRecommendAllocationSize E (8 * cs + sizeof_mword_t E))"
    from s1 have hd: "mem_Pools s1 (unat c) = ps"
      and r0: "pool_mem s1 ps = Some (?r0\<lparr>m_pNextPool := mem_Pools s (unat c)\<rparr>)"
      and c1: "mem_FreeChunksNumber s1 (unat c) = m_FreeChunksNumber ?r0"
      using grown(2) by simp_all
    from contract_init(3)[OF C] have ft: "m_FreeChunksNumber ?r0 = m_ChunksNumber ?r0" .
    from C grown(4,1,5) B' FF obtain as r s'' where
      sg: "seg (pool_mem s1) (mem_Pools s1 (unat c)) as 0"
      and ff: "first_free (pool_mem s1) as = Some a" and r: "pool_mem s1 a = Some r"
      and ex: "a \<notin> {mem_Pools s1 (unat c)} \<longrightarrow> m_FreeChunksNumber r \<noteq> m_ChunksNumber r"
      and F: "mem_PoolsFree E c p s' = Some (Inr s'')"
      and cn: "mem_FreeChunksNumber s'' (unat c) =
       (if m_FreeChunksNumber r = m_ChunksNumber r
        then mem_FreeChunksNumber s1 (unat c) - m_ChunksNumber r
        else mem_FreeChunksNumber s1 (unat c))"
      by (rule take_release)
    have "mem_FreeChunksNumber s'' (unat c) = 0"
    proof (cases "m_FreeChunksNumber r = m_ChunksNumber r")
      case True
      with ex hd have "a = ps" by simp
      with r r0 have "m_ChunksNumber r = m_ChunksNumber ?r0" by auto
      with cn True c1 ft show ?thesis by simp
    next
      case False
      have "m_FreeChunksNumber ?r0 = 0"
      proof (rule ccontr)
        assume "m_FreeChunksNumber ?r0 \<noteq> 0"
        then have "m_FreeChunksNumber (?r0\<lparr>m_pNextPool := mem_Pools s (unat c)\<rparr>) \<noteq> 0" by simp
        from first_free_head[OF sg ff r0[folded hd] this] hd have "a = ps" by simp
        with r r0 have "r = ?r0\<lparr>m_pNextPool := mem_Pools s (unat c)\<rparr>" by simp
        with ft False show False by simp
      qed
      with cn False c1 show ?thesis by simp
    qed
    with F grown(2) show ?thesis by simp
  qed
qed

subsection \<open>The pool that owns a chunk\<close>


lemma hdrsI:
  "c < MEM_POOL_CHUNK_TYPE__COUNT E \<Longrightarrow> seg (pool_mem s) (mem_Pools s c) as 0 \<Longrightarrow> a \<in> set as \<Longrightarrow>
   a \<in> hdrs E s"
  unfolding hdrs_def by blast

lemma hdrsE:
  assumes "a \<in> hdrs E s"
  obtains c as where "c < MEM_POOL_CHUNK_TYPE__COUNT E" "seg (pool_mem s) (mem_Pools s c) as 0" "a \<in> set as"
  using assms unfolding hdrs_def by blast

lemma same_block_refl [simp]: "same_block r r"
  by (simp add: same_block_def)

lemma same_pool_block: "same_pool r r' \<Longrightarrow> same_block r r'"
  by (simp add: same_pool_def same_block_def)

lemma block_ok_same: "same_block r r' \<Longrightarrow> block_ok r' = block_ok r"
  by (simp add: same_block_def block_ok_def)

lemma block_apart_sym: "block_apart b z b' z' \<Longrightarrow> block_apart b' z' b z"
  by (auto simp: block_apart_def)

lemma block_apart_starts:
  assumes "block_ok r" and "block_ok r'"
    and "block_apart (m_pPoolStart r) (m_PoolSize r) (m_pPoolStart r') (m_PoolSize r')"
  shows "m_pPoolStart r \<noteq> m_pPoolStart r'"
  using assms by (auto simp: block_ok_def block_apart_def)

lemma keeps_blocksI:
  assumes "\<And>i. i < MEM_POOL_CHUNK_TYPE__COUNT E \<Longrightarrow>
      \<exists>as bs. seg (pool_mem s) (mem_Pools s i) as 0 \<and> seg (pool_mem s') (mem_Pools s' i) bs 0 \<and>
        set bs \<subseteq> set as \<and>
        (\<forall>b\<in>set bs. \<forall>r'. pool_mem s' b = Some r' \<longrightarrow> (\<exists>r. pool_mem s b = Some r \<and> same_block r r'))"
  shows "keeps_blocks E s s'"
proof -
  have *: "b \<in> hdrs E s \<and> (\<forall>r'. pool_mem s' b = Some r' \<longrightarrow> (\<exists>r. pool_mem s b = Some r \<and> same_block r r'))"
    if "b \<in> hdrs E s'" for b
  proof -
    from that obtain i cs where i: "i < MEM_POOL_CHUNK_TYPE__COUNT E"
      and cs: "seg (pool_mem s') (mem_Pools s' i) cs 0" and b: "b \<in> set cs"
      by (rule hdrsE)
    from assms[OF i] obtain as bs where sg: "seg (pool_mem s) (mem_Pools s i) as 0"
      and sg': "seg (pool_mem s') (mem_Pools s' i) bs 0" and sub: "set bs \<subseteq> set as"
      and rec: "\<forall>b\<in>set bs. \<forall>r'. pool_mem s' b = Some r' \<longrightarrow> (\<exists>r. pool_mem s b = Some r \<and> same_block r r')"
      by blast
    from cs sg' have "cs = bs" by (rule path_unique)
    with b sub rec hdrsI[OF i sg] show ?thesis by auto
  qed
  then show ?thesis unfolding keeps_blocks_def by blast
qed

lemma untouched_class:
  assumes "untouched i s s'"
  shows "\<exists>as bs. seg (pool_mem s) (mem_Pools s i) as 0 \<and> seg (pool_mem s') (mem_Pools s' i) bs 0 \<and>
        set bs \<subseteq> set as \<and>
        (\<forall>b\<in>set bs. \<forall>r'. pool_mem s' b = Some r' \<longrightarrow> (\<exists>r. pool_mem s b = Some r \<and> same_block r r'))"
proof -
  from assms obtain as where "seg (pool_mem s) (mem_Pools s i) as 0"
    "seg (pool_mem s') (mem_Pools s' i) as 0" "\<forall>a\<in>set as. pool_mem s' a = pool_mem s a"
    unfolding untouched_def pool_chain_seg by blast
  then show ?thesis by (intro exI[of _ as]) auto
qed

lemma blocks_inv_keeps:
  assumes I: "blocks_inv E inside s" and K: "keeps_blocks E s s'"
    and H: "\<And>b r. b \<in> hdrs E s' \<Longrightarrow> pool_mem s b = Some r \<Longrightarrow>
              inside (heap s) (m_pPoolStart r) (m_PoolSize r) \<Longrightarrow>
              inside (heap s') (m_pPoolStart r) (m_PoolSize r)"
  shows "blocks_inv E inside s'"
  unfolding blocks_inv_def
proof (intro conjI ballI allI impI)
  fix a r' assume a: "a \<in> hdrs E s'" and r': "pool_mem s' a = Some r'"
  from K a r' obtain r where as: "a \<in> hdrs E s" and r: "pool_mem s a = Some r" and sb: "same_block r r'"
    unfolding keeps_blocks_def by blast
  from I as r have ok: "block_ok r" and ins: "inside (heap s) (m_pPoolStart r) (m_PoolSize r)"
    unfolding blocks_inv_def by blast+
  from ok sb show "block_ok r'" by (simp add: block_ok_same)
  from H[OF a r ins] sb show "inside (heap s') (m_pPoolStart r') (m_PoolSize r')"
    by (simp add: same_block_def)
next
  fix a b ra' rb'
  assume a: "a \<in> hdrs E s'" and b: "b \<in> hdrs E s'" and ne: "a \<noteq> b"
    and ra': "pool_mem s' a = Some ra'" and rb': "pool_mem s' b = Some rb'"
  from K a ra' obtain ra where as: "a \<in> hdrs E s" and ra: "pool_mem s a = Some ra" and sa: "same_block ra ra'"
    unfolding keeps_blocks_def by blast
  from K b rb' obtain rb where bs: "b \<in> hdrs E s" and rb: "pool_mem s b = Some rb" and sb: "same_block rb rb'"
    unfolding keeps_blocks_def by blast
  from I as bs ne ra rb
  have "block_apart (m_pPoolStart ra) (m_PoolSize ra) (m_pPoolStart rb) (m_PoolSize rb)"
    unfolding blocks_inv_def by blast
  with sa sb show "block_apart (m_pPoolStart ra') (m_PoolSize ra') (m_pPoolStart rb') (m_PoolSize rb')"
    by (simp add: same_block_def)
qed

lemma contract_heap_alloc:
  assumes "heap_contract E inside" and "mem_HeapAllocBlock E h sz t = (blk, h')"
  shows "blk \<noteq> 0 \<Longrightarrow> inside h' blk sz"
    and "inside h b z \<Longrightarrow> inside h' b z"
    and "inside h b z \<Longrightarrow> blk \<noteq> 0 \<Longrightarrow> block_apart blk sz b z"
proof -
  from assms have *: "(blk \<noteq> 0 \<longrightarrow> inside h' blk sz) \<and>
        (\<forall>b z. inside h b z \<longrightarrow> inside h' b z \<and> (blk \<noteq> 0 \<longrightarrow> block_apart blk sz b z))"
    unfolding heap_contract_def
    by (elim conjE allE[of _ h] allE[of _ sz] allE[of _ t] allE[of _ blk] allE[of _ h']) simp
  from * show "blk \<noteq> 0 \<Longrightarrow> inside h' blk sz" by simp
  from * show "inside h b z \<Longrightarrow> inside h' b z" by simp
  from * show "inside h b z \<Longrightarrow> blk \<noteq> 0 \<Longrightarrow> block_apart blk sz b z" by simp
qed

lemma contract_heap_free:
  assumes "heap_contract E inside" and "inside h b z" and "b \<noteq> blk"
  shows "inside (mem_HeapFreeBlock E h blk) b z"
  using assms unfolding heap_contract_def by blast

lemma contract_layout_init:
  assumes "layout_contract E pinv used" and "mem_GetChunkSize E c = Inr cs"
    and "mem_HeapAllocBlock E h (mem_HeapRecommendAllocationSize E (8 * cs + sizeof_mword_t E)) t = (blk, h')"
    and "blk \<noteq> 0"
  shows "block_ok (mem_PoolInit E cs blk (mem_HeapRecommendAllocationSize E (8 * cs + sizeof_mword_t E)))"
  using assms unfolding layout_contract_def by blast

lemma contract_layout_used:
  assumes "layout_contract E pinv used" and "pinv r" and "block_ok r" and "p \<in> used r"
  shows "unat (m_pChunks r) \<le> unat p" and "unat p < unat (m_pPoolStart r) + unat (m_PoolSize r)"
  using assms unfolding layout_contract_def by blast+

lemma hdrs_same:
  "pool_mem s' = pool_mem s \<Longrightarrow> mem_Pools s' = mem_Pools s \<Longrightarrow> hdrs E s' = hdrs E s"
  by (simp add: hdrs_def)

lemma blocks_inv_header:
  assumes "blocks_inv E inside s" and "\<And>b z. inside (heap s) b z \<Longrightarrow> inside h b z"
  shows "blocks_inv E inside (s\<lparr>mem_PoolForPoolHeaders := hp, heap := h\<rparr>)"
proof -
  let ?s' = "s\<lparr>mem_PoolForPoolHeaders := hp, heap := h\<rparr>"
  have e: "hdrs E ?s' = hdrs E s" by (rule hdrs_same) simp_all
  show ?thesis unfolding blocks_inv_def e
  proof (intro conjI ballI allI impI)
    fix a r assume a: "a \<in> hdrs E s" "pool_mem ?s' a = Some r"
    then have r: "pool_mem s a = Some r" by simp
    with assms(1) a(1) show "block_ok r" unfolding blocks_inv_def by blast
    from assms(1) a(1) r have "inside (heap s) (m_pPoolStart r) (m_PoolSize r)"
      unfolding blocks_inv_def by blast
    from assms(2)[OF this] show "inside (heap ?s') (m_pPoolStart r) (m_PoolSize r)" by simp
  next
    fix a b ra rb
    assume "a \<in> hdrs E s" "b \<in> hdrs E s" "a \<noteq> b" "pool_mem ?s' a = Some ra" "pool_mem ?s' b = Some rb"
    with assms(1) show "block_apart (m_pPoolStart ra) (m_PoolSize ra) (m_pPoolStart rb) (m_PoolSize rb)"
      unfolding blocks_inv_def by simp
  qed
qed

lemma alloc_take_chain:
  assumes C: "pool_contract E pinv used" and B: "base_inv E pinv used X s"
    and c: "c < MEM_POOL_CHUNK_TYPE__COUNT E"
    and T: "alloc_take E c s = Some (Inr (a, p, s'))"
  obtains as r r' where "seg (pool_mem s) (mem_Pools s c) as 0"
    "seg (pool_mem s') (mem_Pools s' c) as 0" "a \<in> set as"
    "pool_mem s a = Some r" "pool_mem s' = (pool_mem s)(a \<mapsto> r')" "same_pool r r'"
    "pinv r'" "p \<in> used r'" "heap s' = heap s"
proof -
  from B c obtain as where ci: "class_inv pinv used X s c as" unfolding base_inv_def by blast
  then have sg: "seg (pool_mem s) (mem_Pools s c) as 0" by (simp add: class_inv_def)
  from sg T obtain r r' where a: "a \<in> set as" and r: "pool_mem s a = Some r"
    and nz: "m_FreeChunksNumber r \<noteq> 0" and A: "mem_PoolAllocChunk E r = (p, r')"
    and s': "s' = s\<lparr>mem_FreeChunksNumber := (mem_FreeChunksNumber s)(c := mem_FreeChunksNumber s c - 1),
            pool_mem := (pool_mem s)(a \<mapsto> r')\<rparr>"
    by (rule alloc_take_SomeD)
  from ci a r have "pinv r" by (auto simp: class_inv_def node_inv_def)
  note ca = contract_alloc[OF C this A]
  from ca(2) have lk: "m_pNextPool r' = m_pNextPool r" by (simp add: same_pool_def)
  have sg': "seg (pool_mem s') (mem_Pools s' c) as 0"
    using sg s' by (simp add: seg_upd_link[where m = "pool_mem s", OF r lk])
  from ca(4)[OF nz] have pu: "p \<in> used r'" by simp
  from s' have m: "pool_mem s' = (pool_mem s)(a \<mapsto> r')" and h: "heap s' = heap s" by simp_all
  show thesis by (rule that[OF sg sg' a r m ca(2,1) pu h])
qed

lemma alloc_take_keeps:
  assumes C: "pool_contract E pinv used" and B: "base_inv E pinv used X s"
    and c: "c < MEM_POOL_CHUNK_TYPE__COUNT E"
    and T: "alloc_take E c s = Some (Inr (a, p, s'))"
  shows "keeps_blocks E s s'"
proof (rule keeps_blocksI)
  fix i assume i: "i < MEM_POOL_CHUNK_TYPE__COUNT E"
  show "\<exists>as bs. seg (pool_mem s) (mem_Pools s i) as 0 \<and> seg (pool_mem s') (mem_Pools s' i) bs 0 \<and>
        set bs \<subseteq> set as \<and>
        (\<forall>b\<in>set bs. \<forall>r'. pool_mem s' b = Some r' \<longrightarrow> (\<exists>r. pool_mem s b = Some r \<and> same_block r r'))"
  proof (cases "i = c")
    case True
    from C B c T obtain as r r' where sg: "seg (pool_mem s) (mem_Pools s c) as 0"
      "seg (pool_mem s') (mem_Pools s' c) as 0"
      and r: "pool_mem s a = Some r" and m: "pool_mem s' = (pool_mem s)(a \<mapsto> r')"
      and sp: "same_pool r r'"
      by (rule alloc_take_chain)
    have "\<forall>b\<in>set as. \<forall>rb'. pool_mem s' b = Some rb' \<longrightarrow> (\<exists>rb. pool_mem s b = Some rb \<and> same_block rb rb')"
      using r m same_pool_block[OF sp] by auto
    with sg True show ?thesis by (intro exI[of _ as]) simp
  next
    case False
    from alloc_take_untouched[OF B i c False T] show ?thesis by (rule untouched_class)
  qed
qed

lemma alloc_take_blocks:
  assumes C: "pool_contract E pinv used" and B: "base_inv E pinv used X s"
    and c: "c < MEM_POOL_CHUNK_TYPE__COUNT E"
    and T: "alloc_take E c s = Some (Inr (a, p, s'))"
    and I: "blocks_inv E inside s"
  shows "blocks_inv E inside s'"
proof -
  from C B c T obtain as r r' where "seg (pool_mem s) (mem_Pools s c) as 0"
    "seg (pool_mem s') (mem_Pools s' c) as 0" "a \<in> set as"
    "pool_mem s a = Some r" "pool_mem s' = (pool_mem s)(a \<mapsto> r')" "same_pool r r'"
    "pinv r'" "p \<in> used r'" and h: "heap s' = heap s"
    by (rule alloc_take_chain)
  show ?thesis
  proof (rule blocks_inv_keeps[OF I alloc_take_keeps[OF C B c T]])
    fix b r assume "inside (heap s) (m_pPoolStart r) (m_PoolSize r)"
    with h show "inside (heap s') (m_pPoolStart r) (m_PoolSize r)" by simp
  qed
qed

lemma alloc_grow_blocks:
  assumes C: "pool_contract E pinv used" and L: "layout_contract E pinv used"
    and H: "heap_contract E inside" and B: "base_inv E pinv used {} s"
    and cs: "mem_GetChunkSize E c = Inr cs"
    and G: "alloc_grow E (unat c) cs s = Inr (Inr s1)"
    and I: "blocks_inv E inside s"
  shows "blocks_inv E inside s1"
proof -
  let ?sz = "mem_HeapRecommendAllocationSize E (8 * cs + sizeof_mword_t E)"
  from cs have c: "unat c < MEM_POOL_CHUNK_TYPE__COUNT E" by (rule mem_GetChunkSize_Inr)
  from G obtain ps hp blk h where A: "mem_PoolAllocChunk E (mem_PoolForPoolHeaders s) = (ps, hp)"
    and ps: "ps \<noteq> 0"
    and HA: "mem_HeapAllocBlock E (heap s) ?sz MEM_HEAP_ALLOC_LONG_TERM = (blk, h)"
    and blk: "blk \<noteq> 0"
    and s1: "s1 = s\<lparr>mem_PoolForPoolHeaders := hp, heap := h,
            pool_mem := (pool_mem s)(ps \<mapsto>
              (mem_PoolInit E cs blk ?sz)\<lparr>m_pNextPool := mem_Pools s (unat c)\<rparr>),
            mem_Pools := (mem_Pools s)(unat c := ps),
            mem_FreeChunksNumber := (mem_FreeChunksNumber s)
              (unat c := mem_FreeChunksNumber s (unat c) + m_FreeChunksNumber (mem_PoolInit E cs blk ?sz))\<rparr>"
    by (rule alloc_grow_Inr)
  define r0 where "r0 = (mem_PoolInit E cs blk ?sz)\<lparr>m_pNextPool := mem_Pools s (unat c)\<rparr>"
  from s1 have m1: "pool_mem s1 = (pool_mem s)(ps \<mapsto> r0)" and h1: "heap s1 = h"
    and p1: "mem_Pools s1 = (mem_Pools s)(unat c := ps)"
    by (simp_all add: r0_def)
  from B have hp0: "pinv (mem_PoolForPoolHeaders s)" by (simp add: base_inv_def)
  note ca = contract_alloc[OF C hp0 A]
  from ca(3) ps have "m_FreeChunksNumber (mem_PoolForPoolHeaders s) \<noteq> 0" by auto
  from ca(4)[OF this] have fresh: "ps \<notin> used (mem_PoolForPoolHeaders s)" by simp
  have old: "b \<noteq> ps" if "b \<in> hdrs E s" for b
  proof -
    from that obtain i as where i: "i < MEM_POOL_CHUNK_TYPE__COUNT E"
      and sg: "seg (pool_mem s) (mem_Pools s i) as 0" and b: "b \<in> set as"
      by (rule hdrsE)
    from B i obtain bs where "class_inv pinv used {} s i bs" unfolding base_inv_def by blast
    then have "seg (pool_mem s) (mem_Pools s i) bs 0" "set bs \<subseteq> used (mem_PoolForPoolHeaders s)"
      by (simp_all add: class_inv_def)
    with path_unique[OF sg] have "set as \<subseteq> used (mem_PoolForPoolHeaders s)" by blast
    with b fresh show ?thesis by auto
  qed
  have sub: "b = ps \<or> b \<in> hdrs E s" if "b \<in> hdrs E s1" for b
  proof -
    from that obtain i bs where i: "i < MEM_POOL_CHUNK_TYPE__COUNT E"
      and sg1: "seg (pool_mem s1) (mem_Pools s1 i) bs 0" and b: "b \<in> set bs"
      by (rule hdrsE)
    show ?thesis
    proof (cases "i = unat c")
      case True
      from B c obtain as where sg: "seg (pool_mem s) (mem_Pools s (unat c)) as 0"
        unfolding base_inv_def class_inv_def by blast
      from hdrsI[OF c sg] old have "ps \<notin> set as" by blast
      with sg have "seg (pool_mem s1) (mem_Pools s (unat c)) as 0"
        by (simp add: m1 seg_upd_other)
      with ps have "seg (pool_mem s1) (mem_Pools s1 (unat c)) (ps # as) 0"
        by (simp add: m1 p1 r0_def)
      from path_unique[OF sg1[unfolded True] this] have "bs = ps # as" .
      with b hdrsI[OF c sg] show ?thesis by auto
    next
      case False
      from alloc_grow_untouched[OF C B i c False G] obtain as where
        sg: "seg (pool_mem s) (mem_Pools s i) as 0" and sg2: "seg (pool_mem s1) (mem_Pools s1 i) as 0"
        unfolding untouched_def pool_chain_seg by blast
      from path_unique[OF sg1 sg2] have "bs = as" .
      with b hdrsI[OF i sg] show ?thesis by simp
    qed
  qed
  note ci = contract_init[OF C, of cs blk ?sz]
  from contract_layout_init[OF L cs HA blk] have ok0: "block_ok r0"
    by (simp add: r0_def block_ok_def)
  from ci have f0: "m_pPoolStart r0 = blk" "m_PoolSize r0 = ?sz" by (simp_all add: r0_def)
  note ch = contract_heap_alloc[OF H HA]
  have rec: "(b = ps \<and> r = r0) \<or> (b \<in> hdrs E s \<and> b \<noteq> ps \<and> pool_mem s b = Some r)"
    if "b \<in> hdrs E s1" "pool_mem s1 b = Some r" for b r
    using sub[OF that(1)] that(2) old by (auto simp: m1)
  show ?thesis unfolding blocks_inv_def
  proof (intro conjI ballI allI impI)
    fix a r assume a: "a \<in> hdrs E s1" "pool_mem s1 a = Some r"
    from rec[OF a] show "block_ok r"
    proof
      assume "a = ps \<and> r = r0" with ok0 show ?thesis by simp
    next
      assume "a \<in> hdrs E s \<and> a \<noteq> ps \<and> pool_mem s a = Some r"
      with I show ?thesis unfolding blocks_inv_def by blast
    qed
    from rec[OF a] show "inside (heap s1) (m_pPoolStart r) (m_PoolSize r)"
    proof
      assume "a = ps \<and> r = r0" with ch(1)[OF blk] f0 h1 show ?thesis by simp
    next
      assume "a \<in> hdrs E s \<and> a \<noteq> ps \<and> pool_mem s a = Some r"
      with I have "inside (heap s) (m_pPoolStart r) (m_PoolSize r)" unfolding blocks_inv_def by blast
      from ch(2)[OF this] h1 show ?thesis by simp
    qed
  next
    fix a b ra rb
    assume a: "a \<in> hdrs E s1" and b: "b \<in> hdrs E s1" and ne: "a \<noteq> b"
      and ra: "pool_mem s1 a = Some ra" and rb: "pool_mem s1 b = Some rb"
    have new: "block_apart blk ?sz (m_pPoolStart r) (m_PoolSize r)"
      if "x \<in> hdrs E s" "pool_mem s x = Some r" for x r
    proof -
      from I that have "inside (heap s) (m_pPoolStart r) (m_PoolSize r)"
        unfolding blocks_inv_def by blast
      from ch(3)[OF this blk] show ?thesis .
    qed
    from rec[OF a ra] rec[OF b rb] ne
    consider "a = ps" "ra = r0" "b \<in> hdrs E s" "pool_mem s b = Some rb"
      | "b = ps" "rb = r0" "a \<in> hdrs E s" "pool_mem s a = Some ra"
      | "a \<in> hdrs E s" "pool_mem s a = Some ra" "b \<in> hdrs E s" "pool_mem s b = Some rb"
      by blast
    then show "block_apart (m_pPoolStart ra) (m_PoolSize ra) (m_pPoolStart rb) (m_PoolSize rb)"
    proof cases
      case 1
      with new[OF 1(3,4)] f0 show ?thesis by simp
    next
      case 2
      with new[OF 2(3,4)] f0 show ?thesis by (simp add: block_apart_sym)
    next
      case 3
      with I ne show ?thesis unfolding blocks_inv_def by blast
    qed
  qed
qed

lemma mem_PoolsFree_blocks:
  assumes C: "pool_contract E pinv used" and H: "heap_contract E inside"
    and P: "pools_inv E pinv used s" and ok: "free_ok used (unat c) p s"
    and F: "mem_PoolsFree E c p s = Some (Inr s')"
    and I: "blocks_inv E inside s"
  shows "blocks_inv E inside s'"
proof -
  from F have c: "unat c < MEM_POOL_CHUNK_TYPE__COUNT E" by (rule mem_PoolsFree_bound)
  from P have B: "base_inv E pinv used {} s" by (simp add: pools_inv_def)
  from P c obtain as where ci: "class_inv pinv used {} s (unat c) as"
    and sg: "seg (pool_mem s) (mem_Pools s (unat c)) as 0"
    by (rule pools_inv_seg)
  from c ok sg obtain ys zs a q r where as: "as = ys @ a # zs"
    and q: "q = (if ys = [] then 0 else last ys)"
    and r: "pool_mem s a = Some r" and pu: "p \<in> used r"
    and step: "mem_PoolsFree E c p s =
       (if m_FreeChunksNumber (mem_PoolFreeChunk E r p) = m_ChunksNumber (mem_PoolFreeChunk E r p)
        then Some (free_pool E (unat c) a q (mem_PoolFreeChunk E r p)
               (s\<lparr>pool_mem := (pool_mem s)(a \<mapsto> mem_PoolFreeChunk E r p),
                  mem_FreeChunksNumber := (mem_FreeChunksNumber s)(unat c := mem_FreeChunksNumber s (unat c) + 1)\<rparr>))
        else Some (Inr
               (s\<lparr>pool_mem := (pool_mem s)(a \<mapsto> mem_PoolFreeChunk E r p),
                  mem_FreeChunksNumber := (mem_FreeChunksNumber s)(unat c := mem_FreeChunksNumber s (unat c) + 1)\<rparr>)))"
    by (rule free_step)
  define r1 where "r1 = mem_PoolFreeChunk E r p"
  define s1 where "s1 = s\<lparr>pool_mem := (pool_mem s)(a \<mapsto> r1),
     mem_FreeChunksNumber := (mem_FreeChunksNumber s)(unat c := mem_FreeChunksNumber s (unat c) + 1)\<rparr>"
  from as have a: "a \<in> set as" by simp
  from ci a r have pr: "pinv r" by (auto simp: class_inv_def node_inv_def)
  from contract_free(3)[OF C pr pu] have sp: "same_pool r r1" by (simp add: r1_def)
  then have lk: "m_pNextPool r1 = m_pNextPool r" by (simp add: same_pool_def)
  from path_distinct[OF sg] as have nin: "a \<notin> set (ys @ zs)" by auto
  have m1: "pool_mem s1 = (pool_mem s)(a \<mapsto> r1)" by (simp add: s1_def)
  have other: "\<exists>as bs. seg (pool_mem s) (mem_Pools s i) as 0 \<and> seg (pool_mem s') (mem_Pools s' i) bs 0 \<and>
        set bs \<subseteq> set as \<and>
        (\<forall>b\<in>set bs. \<forall>r'. pool_mem s' b = Some r' \<longrightarrow> (\<exists>r. pool_mem s b = Some r \<and> same_block r r'))"
    if "i < MEM_POOL_CHUNK_TYPE__COUNT E" "i \<noteq> unat c" for i
    using mem_PoolsFree_untouched[OF P that F] by (rule untouched_class)
  show ?thesis
  proof (cases "m_FreeChunksNumber r1 = m_ChunksNumber r1")
    case False
    with F step have s': "s' = s1" by (simp add: r1_def s1_def)
    have own: "seg (pool_mem s') (mem_Pools s' (unat c)) as 0"
      using sg by (simp add: s' s1_def seg_upd_link[where m = "pool_mem s", OF r lk])
    have rec: "\<forall>b\<in>set as. \<forall>r'. pool_mem s' b = Some r' \<longrightarrow> (\<exists>r. pool_mem s b = Some r \<and> same_block r r')"
      using r same_pool_block[OF sp] by (auto simp: s' m1)
    have K: "keeps_blocks E s s'"
    proof (rule keeps_blocksI)
      fix i assume i: "i < MEM_POOL_CHUNK_TYPE__COUNT E"
      show "\<exists>as bs. seg (pool_mem s) (mem_Pools s i) as 0 \<and> seg (pool_mem s') (mem_Pools s' i) bs 0 \<and>
        set bs \<subseteq> set as \<and>
        (\<forall>b\<in>set bs. \<forall>r'. pool_mem s' b = Some r' \<longrightarrow> (\<exists>r. pool_mem s b = Some r \<and> same_block r r'))"
      proof (cases "i = unat c")
        case True
        with sg own rec show ?thesis by (intro exI[of _ as]) simp
      next
        case False
        with i show ?thesis by (rule other)
      qed
    qed
    have h: "heap s' = heap s" by (simp add: s' s1_def)
    show ?thesis
    proof (rule blocks_inv_keeps[OF I K])
      fix b rb assume "inside (heap s) (m_pPoolStart rb) (m_PoolSize rb)"
      with h show "inside (heap s') (m_pPoolStart rb) (m_PoolSize rb)" by simp
    qed
  next
    case True
    then have full: "m_FreeChunksNumber (mem_PoolFreeChunk E r p) = m_ChunksNumber (mem_PoolFreeChunk E r p)"
      by (simp add: r1_def)
    from sg as have sg2: "seg (pool_mem s) (mem_Pools s (unat c)) (ys @ a # zs) 0" by simp
    from C B c sg2 r pu q full obtain s'' where
      fp: "free_pool E (unat c) a q (mem_PoolFreeChunk E r p)
       (s\<lparr>pool_mem := (pool_mem s)(a \<mapsto> mem_PoolFreeChunk E r p),
          mem_FreeChunksNumber := (mem_FreeChunksNumber s)(unat c := mem_FreeChunksNumber s (unat c) + 1)\<rparr>) = Inr s''"
      and B'': "base_inv E pinv used {} s''"
      and own'': "seg (pool_mem s'') (mem_Pools s'' (unat c)) (ys @ zs) 0"
      and cn: "mem_FreeChunksNumber s'' = (mem_FreeChunksNumber s)(unat c := mem_FreeChunksNumber s (unat c) + 1 - m_ChunksNumber r)"
      and hp'': "heap s'' = mem_HeapFreeBlock E (heap s) (m_pPoolStart r)"
      and hd'': "mem_PoolForPoolHeaders s'' = mem_PoolFreeChunk E (mem_PoolForPoolHeaders s) a"
      and oth: "\<forall>b. b \<notin> set (ys @ a # zs) \<longrightarrow> pool_mem s'' b = pool_mem s b"
      and hds: "\<forall>c'. c' \<noteq> unat c \<longrightarrow> mem_Pools s'' c' = mem_Pools s c'"
      and e1: "ys = [] \<longrightarrow> mem_Pools s'' (unat c) = m_pNextPool r"
      and e2: "ys \<noteq> [] \<longrightarrow> mem_Pools s'' (unat c) = mem_Pools s (unat c) \<and>
         (\<exists>rp. pool_mem s q = Some rp \<and> pool_mem s'' q = Some (rp\<lparr>m_pNextPool := m_pNextPool r\<rparr>))"
      and sp'': "mem_SpaceForPoolForPoolHeaders s'' = mem_SpaceForPoolForPoolHeaders s"
      by (rule consolidate_base)
    from F step full fp have s': "s' = s''" by simp
    from fp have fr: "\<forall>b. b \<noteq> q \<longrightarrow> pool_mem s'' b = pool_mem s1 b"
      unfolding s1_def r1_def by (rule free_pool_frame(3))
    have rec: "\<exists>rb. pool_mem s b = Some rb \<and> same_block rb rb'"
      if b: "b \<in> set (ys @ zs)" and rb': "pool_mem s' b = Some rb'" for b rb'
    proof (cases "b = q")
      case False
      from b nin have "b \<noteq> a" by auto
      with False fr rb' have "pool_mem s b = Some rb'" by (simp add: s' m1)
      then show ?thesis by auto
    next
      case True
      from b as have "b \<in> set as" by auto
      with seg_mem[OF sg] have "b \<noteq> 0" by blast
      with True q have "ys \<noteq> []" by auto
      with e2 obtain rp where "pool_mem s q = Some rp"
        "pool_mem s'' q = Some (rp\<lparr>m_pNextPool := m_pNextPool r\<rparr>)" by blast
      with True rb' show ?thesis by (auto simp: s' same_block_def)
    qed
    have K: "keeps_blocks E s s'"
    proof (rule keeps_blocksI)
      fix i assume i: "i < MEM_POOL_CHUNK_TYPE__COUNT E"
      show "\<exists>as bs. seg (pool_mem s) (mem_Pools s i) as 0 \<and> seg (pool_mem s') (mem_Pools s' i) bs 0 \<and>
        set bs \<subseteq> set as \<and>
        (\<forall>b\<in>set bs. \<forall>r'. pool_mem s' b = Some r' \<longrightarrow> (\<exists>r. pool_mem s b = Some r \<and> same_block r r'))"
      proof (cases "i = unat c")
        case True
        have "set (ys @ zs) \<subseteq> set as" using as by auto
        with sg own'' rec True show ?thesis
          by (intro exI[of _ as] exI[of _ "ys @ zs"]) (simp add: s')
      next
        case False
        with i show ?thesis by (rule other)
      qed
    qed
    have gone: "a \<notin> hdrs E s'"
    proof
      assume "a \<in> hdrs E s'"
      then obtain i cs where i: "i < MEM_POOL_CHUNK_TYPE__COUNT E"
        and cs: "seg (pool_mem s') (mem_Pools s' i) cs 0" and acs: "a \<in> set cs"
        by (rule hdrsE)
      show False
      proof (cases "i = unat c")
        case True
        from path_unique[OF cs[unfolded True s'] own''] acs nin show False by simp
      next
        case False
        from mem_PoolsFree_untouched[OF P i False F] obtain bs where
          bs: "seg (pool_mem s) (mem_Pools s i) bs 0" and bs': "seg (pool_mem s') (mem_Pools s' i) bs 0"
          unfolding untouched_def pool_chain_seg by blast
        from path_unique[OF cs bs'] have "cs = bs" .
        moreover from B i c False bs sg have "set bs \<inter> set as = {}"
          unfolding base_inv_def by blast
        ultimately show False using acs a by auto
      qed
    qed
    from hdrsI[OF c sg a] have ah: "a \<in> hdrs E s" .
    show ?thesis
    proof (rule blocks_inv_keeps[OF I K])
      fix b rb
      assume b: "b \<in> hdrs E s'" and rb: "pool_mem s b = Some rb"
        and ins: "inside (heap s) (m_pPoolStart rb) (m_PoolSize rb)"
      from b gone have ne: "b \<noteq> a" by auto
      from K b have bh: "b \<in> hdrs E s" unfolding keeps_blocks_def by blast
      from I bh rb have okb: "block_ok rb" unfolding blocks_inv_def by blast
      from I ah r have oka: "block_ok r" unfolding blocks_inv_def by blast
      from I bh ah ne rb r
      have "block_apart (m_pPoolStart rb) (m_PoolSize rb) (m_pPoolStart r) (m_PoolSize r)"
        unfolding blocks_inv_def by blast
      from block_apart_starts[OF okb oka this] have "m_pPoolStart rb \<noteq> m_pPoolStart r" .
      from contract_heap_free[OF H ins this]
      show "inside (heap s') (m_pPoolStart rb) (m_PoolSize rb)" by (simp add: s' hp'')
    qed
  qed
qed

lemma mem_PoolsInit_blocks:
  assumes C: "pool_contract E pinv used" and "mem_PoolsInit E s0 = Inr s"
  shows "blocks_inv E inside s"
proof -
  have "hdrs E s = {}"
    unfolding hdrs_def using mem_PoolsInit_base(2)[OF assms] by auto
  then show ?thesis by (simp add: blocks_inv_def)
qed

lemma alloc_from_blocks:
  assumes C: "pool_contract E pinv used" and L: "layout_contract E pinv used"
    and H: "heap_contract E inside" and P: "pools_inv E pinv used s"
    and A: "alloc_from E c s = Some (Inr (a, p, s'))"
    and I: "blocks_inv E inside s"
  shows "blocks_inv E inside s'"
proof -
  from P have B: "base_inv E pinv used {} s" by (simp add: pools_inv_def)
  from A show ?thesis
  proof (cases rule: alloc_from_cases)
    case (take cs)
    from take(1) have c: "unat c < MEM_POOL_CHUNK_TYPE__COUNT E" by (rule mem_GetChunkSize_Inr)
    from alloc_take_blocks[OF C B c take(3) I] show ?thesis .
  next
    case (fail cs)
    from fail(3) show ?thesis
    proof (cases rule: alloc_grow_Inl)
      case (header hp)
      from blocks_inv_header[OF I, of "heap s" hp] header(3) show ?thesis by simp
    next
      case (block ps hp h)
      from blocks_inv_header[OF I contract_heap_alloc(2)[OF H block(3)], of hp] block(5)
      show ?thesis by simp
    qed
  next
    case (grow cs s1)
    from grow(1) have c: "unat c < MEM_POOL_CHUNK_TYPE__COUNT E" by (rule mem_GetChunkSize_Inr)
    from alloc_grow_Inr_base[OF C B c grow(3)]
    have B1: "base_inv E pinv used {mem_Pools s1 (unat c)} s1" .
    from alloc_grow_blocks[OF C L H B grow(1,3) I] have "blocks_inv E inside s1" .
    from alloc_take_blocks[OF C B1 c grow(4) this] show ?thesis .
  qed
qed

lemma reachable_blocks_inv:
  assumes C: "pool_contract E pinv used" and L: "layout_contract E pinv used"
    and H: "heap_contract E inside" and "reachable E used s"
  shows "blocks_inv E inside s"
  using assms(4)
proof (induction rule: reachable.induct)
  case (reach_init s0 s)
  then show ?case by (rule mem_PoolsInit_blocks[OF C])
next
  case (reach_alloc s c p s')
  from reach_alloc(2) obtain a where A: "alloc_from E c s = Some (Inr (a, p, s'))"
    by (rule mem_PoolsAlloc_SomeD)
  from alloc_from_blocks[OF C L H reachable_pools_inv[OF C reach_alloc(1)] A reach_alloc(3)]
  show ?case .
next
  case (reach_free s c p s')
  from mem_PoolsFree_blocks[OF C H reachable_pools_inv[OF C reach_free(1)] reach_free(2,3,4)]
  show ?case .
qed

lemma first_owner_intro:
  assumes "\<forall>b\<in>set ys. \<exists>rb. m b = Some rb \<and> \<not> pool_contains rb p"
    and "m a = Some r" and "pool_contains r p"
  shows "first_owner m p prev (ys @ a # zs) = Some (a, if ys = [] then prev else last ys)"
  using assms(1)
proof (induction ys arbitrary: prev)
  case Nil
  with assms(2,3) show ?case by simp
next
  case (Cons b bs)
  then obtain rb where "m b = Some rb" "\<not> pool_contains rb p" by auto
  with Cons.IH[of b] Cons.prems show ?case by auto
qed

lemma pool_contains_own:
  fixes r :: "('a :: len, 'z) pool"
  assumes "block_ok r" and "unat (m_pChunks r) \<le> unat p"
    and "unat p < unat (m_pPoolStart r) + unat (m_PoolSize r)"
  shows "pool_contains r p"
proof -
  from assms(1) have "unat (m_pPoolStart r) + unat (m_PoolSize r) < 2 ^ LENGTH('a)"
    by (simp add: block_ok_def)
  then have "unat (m_pPoolStart r + m_PoolSize r) = unat (m_pPoolStart r) + unat (m_PoolSize r)"
    by (simp add: unat_add_lem[THEN iffD1])
  with assms(2,3) show ?thesis by (simp add: pool_contains_def word_le_nat_alt)
qed

lemma pool_contains_other:
  fixes r rb :: "('a :: len, 'z) pool"
  assumes "block_ok r" and "block_ok rb"
    and "block_apart (m_pPoolStart r) (m_PoolSize r) (m_pPoolStart rb) (m_PoolSize rb)"
    and "unat (m_pChunks r) \<le> unat p"
    and "unat p < unat (m_pPoolStart r) + unat (m_PoolSize r)"
  shows "\<not> pool_contains rb p"
proof
  assume pc: "pool_contains rb p"
  from assms(2) have "unat (m_pPoolStart rb) + unat (m_PoolSize rb) < 2 ^ LENGTH('a)"
    by (simp add: block_ok_def)
  then have "unat (m_pPoolStart rb + m_PoolSize rb) = unat (m_pPoolStart rb) + unat (m_PoolSize rb)"
    by (simp add: unat_add_lem[THEN iffD1])
  with pc have "unat (m_pChunks rb) \<le> unat p" "unat p \<le> unat (m_pPoolStart rb) + unat (m_PoolSize rb)"
    by (simp_all add: pool_contains_def word_le_nat_alt)
  with assms show False by (auto simp: block_ok_def block_apart_def)
qed

lemma owner_found:
  assumes L: "layout_contract E pinv used" and I: "blocks_inv E inside s"
    and c: "c < MEM_POOL_CHUNK_TYPE__COUNT E"
    and sg: "seg (pool_mem s) (mem_Pools s c) as 0" and a: "a \<in> set as"
    and r: "pool_mem s a = Some r" and pr: "pinv r" and pu: "p \<in> used r"
  shows "\<exists>q. free_find (pool_mem s) p (mem_Pools s c) 0 = Some (Inr (a, q))"
proof -
  from a obtain ys zs where as: "as = ys @ a # zs" and nin: "a \<notin> set ys"
    by (auto dest: split_list_first)
  from hdrsI[OF c sg a] have ah: "a \<in> hdrs E s" .
  with I r have ok: "block_ok r" unfolding blocks_inv_def by blast
  note rg = contract_layout_used[OF L pr ok pu]
  from pool_contains_own[OF ok rg] have own: "pool_contains r p" .
  have "\<exists>rb. pool_mem s b = Some rb \<and> \<not> pool_contains rb p" if b: "b \<in> set ys" for b
  proof -
    from b as have bas: "b \<in> set as" by simp
    with seg_mem[OF sg] obtain rb where rb: "pool_mem s b = Some rb" by blast
    from hdrsI[OF c sg bas] have bh: "b \<in> hdrs E s" .
    from b nin have ne: "a \<noteq> b" by auto
    from I bh rb have okb: "block_ok rb" unfolding blocks_inv_def by blast
    from I ah bh ne r rb
    have "block_apart (m_pPoolStart r) (m_PoolSize r) (m_pPoolStart rb) (m_PoolSize rb)"
      unfolding blocks_inv_def by blast
    from pool_contains_other[OF ok okb this rg] rb show ?thesis by simp
  qed
  then have "\<forall>b\<in>set ys. \<exists>rb. pool_mem s b = Some rb \<and> \<not> pool_contains rb p" by blast
  from first_owner_intro[OF this r own, of 0 zs]
  have "first_owner (pool_mem s) p 0 as = Some (a, if ys = [] then 0 else last ys)"
    by (simp add: as)
  moreover from as have "as \<noteq> []" by simp
  ultimately have "free_find (pool_mem s) p (mem_Pools s c) 0
      = Some (Inr (a, if ys = [] then 0 else last ys))"
    unfolding free_find_seg[OF sg] by (simp add: case_list_ne)
  then show ?thesis by blast
qed

lemma alloc_from_owner:
  assumes C: "pool_contract E pinv used" and P: "pools_inv E pinv used s"
    and A: "alloc_from E c s = Some (Inr (a, p, s'))" and p: "p \<noteq> 0"
  obtains as r' where "unat c < MEM_POOL_CHUNK_TYPE__COUNT E"
    "seg (pool_mem s') (mem_Pools s' (unat c)) as 0" "a \<in> set as"
    "pool_mem s' a = Some r'" "pinv r'" "p \<in> used r'"
proof -
  from P have B: "base_inv E pinv used {} s" by (simp add: pools_inv_def)
  from C B A p show thesis
  proof (cases rule: alloc_from_take)
    case plain
    from C B plain(1,3) obtain as r r' where "seg (pool_mem s) (mem_Pools s (unat c)) as 0"
      and sg': "seg (pool_mem s') (mem_Pools s' (unat c)) as 0" and a: "a \<in> set as"
      and "pool_mem s a = Some r" and m: "pool_mem s' = (pool_mem s)(a \<mapsto> r')"
      and "same_pool r r'" and pr: "pinv r'" and pu: "p \<in> used r'" and "heap s' = heap s"
      by (rule alloc_take_chain)
    from m have "pool_mem s' a = Some r'" by simp
    from plain(1) sg' a this pr pu show thesis by (rule that)
  next
    case (grown cs s1)
    from C grown(4,1,5) obtain as r r' where "seg (pool_mem s1) (mem_Pools s1 (unat c)) as 0"
      and sg': "seg (pool_mem s') (mem_Pools s' (unat c)) as 0" and a: "a \<in> set as"
      and "pool_mem s1 a = Some r" and m: "pool_mem s' = (pool_mem s1)(a \<mapsto> r')"
      and "same_pool r r'" and pr: "pinv r'" and pu: "p \<in> used r'" and "heap s' = heap s1"
      by (rule alloc_take_chain)
    from m have "pool_mem s' a = Some r'" by simp
    from grown(1) sg' a this pr pu show thesis by (rule that)
  qed
qed

lemma simple_class_cases:
  fixes c :: "32 word"
  assumes "mem_GetChunkSize simple_env c = Inr cs"
  shows "cs = 4 \<or> cs = 8 \<or> cs = 16 \<or> cs = 32"
proof -
  from assms have "unat c < 4"
    by (auto simp: mem_GetChunkSize_def simple_env_sel split: if_splits)
  then have "unat c = 0 \<or> unat c = 1 \<or> unat c = 2 \<or> unat c = 3" by arith
  then have "(of_nat (unat c) :: 32 word) = 0 \<or> (of_nat (unat c) :: 32 word) = 1 \<or>
             (of_nat (unat c) :: 32 word) = 2 \<or> (of_nat (unat c) :: 32 word) = 3"
    by (elim disjE) (simp_all only: of_nat_0 of_nat_1 of_nat_numeral, simp_all)
  then have "c = 0 \<or> c = 1 \<or> c = 2 \<or> c = 3" by simp
  with assms simple_chunk_sizes show ?thesis by auto
qed

lemma unat_plus_4:
  fixes b :: "32 word"
  assumes "unat b + 4 < 2 ^ 32"
  shows "unat (b + 4) = unat b + 4"
  using assms unat_add_lem[of b 4] by simp

lemma simple_block_ok:
  assumes "4 \<le> unat sz" and "unat blk + unat sz < 2 ^ 32"
  shows "block_ok (simple_PoolInit cs blk sz)"
proof -
  from assms have "unat (blk + 4) = unat blk + 4" by (intro unat_plus_4) simp
  with assms show ?thesis by (simp add: block_ok_def simple_PoolInit_def Let_def)
qed

lemma simple_heap_alloc:
  assumes A: "mem_HeapAllocBlock simple_env h sz t = (blk, h')"
  shows "(blk \<noteq> 0 \<longrightarrow> simple_inside h' blk sz) \<and>
        (\<forall>b z. simple_inside h b z \<longrightarrow> simple_inside h' b z \<and> (blk \<noteq> 0 \<longrightarrow> block_apart blk sz b z))"
proof -
  obtain brk lim where h: "h = (brk, lim)" by (cases h)
  have lim: "unat lim < 2 ^ 32" using unsigned_less[of lim, where 'a = nat] by simp
  show ?thesis
  proof (cases "unat brk + unat sz \<le> unat lim")
    case True
    with A h have e: "blk = brk" "h' = (brk + sz, lim)"
      by (auto simp: simple_env_sel simple_HeapAllocBlock_def)
    from True lim have "unat (brk + sz) = unat brk + unat sz"
      by (simp add: unat_add_lem[THEN iffD1])
    then show ?thesis by (auto simp: e h simple_inside_def block_apart_def)
  next
    case False
    with A h have "blk = 0" "h' = h" by (auto simp: simple_env_sel simple_HeapAllocBlock_def)
    then show ?thesis by simp
  qed
qed

lemma simple_heap_contract: "heap_contract simple_env simple_inside"
  unfolding heap_contract_def
proof (rule conjI)
  show "\<forall>h sz t blk h'. mem_HeapAllocBlock simple_env h sz t = (blk, h') \<longrightarrow>
        (blk \<noteq> 0 \<longrightarrow> simple_inside h' blk sz) \<and>
        (\<forall>b z. simple_inside h b z \<longrightarrow> simple_inside h' b z \<and> (blk \<noteq> 0 \<longrightarrow> block_apart blk sz b z))"
    by (intro allI impI) (rule simple_heap_alloc)
  show "\<forall>h blk b z. simple_inside h b z \<longrightarrow> b \<noteq> blk \<longrightarrow>
          simple_inside (mem_HeapFreeBlock simple_env h blk) b z"
    by (simp add: simple_env_sel)
qed

lemma simple_chunk_range:
  fixes ps sz cs :: "32 word"
  assumes ok: "block_ok (simple_PoolInit cs ps sz)"
    and p: "p \<in> set (fst (mem_PoolState_t.more (simple_PoolInit cs ps sz)))"
  shows "unat (ps + 4) \<le> unat p \<and> unat p < unat ps + unat sz"
proof -
  from ok have lt: "unat ps < unat (ps + 4)" and wr: "unat ps + unat sz < 2 ^ 32"
    by (simp_all add: block_ok_def simple_PoolInit_def Let_def)
  have p4: "unat (ps + 4) = unat ps + 4"
  proof (rule ccontr)
    assume n: "unat (ps + 4) \<noteq> unat ps + 4"
    have "unat (ps + 4) = (unat ps + 4) mod 2 ^ 32" by (simp add: unat_word_ariths)
    with n have "2 ^ 32 \<le> unat ps + 4" by (auto simp: not_less[symmetric])
    moreover have "unat (ps + 4) = (unat ps + 4) mod 2 ^ 32" by (simp add: unat_word_ariths)
    moreover have "unat ps < 2 ^ 32" using unsigned_less[of ps, where 'a = nat] by simp
    ultimately have "unat (ps + 4) = unat ps + 4 - 2 ^ 32"
      by (simp add: mod_if)
    with lt show False by simp
  qed
  from p obtain i where i: "i < (if cs = 0 \<or> sz < 4 then 0 else unat ((sz - 4) div cs))"
    and pe: "p = ps + 4 + of_nat i * cs"
    by (auto simp: simple_PoolInit_def Let_def)
  from i have cs: "cs \<noteq> 0" and sz: "4 \<le> sz" and ilt: "i < unat ((sz - 4) div cs)"
    by (auto split: if_splits simp: not_less)
  from sz have s4: "unat (sz - 4) = unat sz - 4" and ge: "4 \<le> unat sz"
    by (simp_all add: unat_sub word_le_nat_alt)
  from cs have cpos: "0 < unat cs" by (simp add: unat_gt_0)
  from ilt have "i < (unat sz - 4) div unat cs" by (simp add: unat_div s4)
  then have "Suc i \<le> (unat sz - 4) div unat cs" by simp
  then have "Suc i * unat cs \<le> unat sz - 4"
    using cpos by (simp add: less_eq_div_iff_mult_less_eq)
  with cpos have b: "i * unat cs < unat sz - 4" by simp
  let ?k = "unat ps + 4 + i * unat cs"
  from b ge wr have k: "?k < unat ps + unat sz" "?k < 2 ^ 32" by simp_all
  have e: "p = of_nat ?k" by (simp add: pe)
  have "unat (of_nat ?k :: 32 word) = ?k" using k(2) by (rule unat_of_nat_32)
  then have "unat p = ?k" by (simp only: e)
  with k p4 show ?thesis by simp
qed

lemma simple_PoolInit_fields:
  "m_pPoolStart (simple_PoolInit cs ps sz) = ps" "m_PoolSize (simple_PoolInit cs ps sz) = sz"
  "m_pChunks (simple_PoolInit cs ps sz) = ps + 4"
  "snd (mem_PoolState_t.more (simple_PoolInit cs ps sz)) = []"
  by (simp_all add: simple_PoolInit_def Let_def)

lemma simple_laid_init: "simple_laid (simple_PoolInit cs ps sz)"
proof -
  from simple_init_contract have "simple_pinv (simple_PoolInit cs ps sz)"
    by (simp add: init_contract_def simple_env_sel)
  moreover have "unat (m_pChunks (simple_PoolInit cs ps sz)) \<le> unat p \<and>
      unat p < unat (m_pPoolStart (simple_PoolInit cs ps sz)) + unat (m_PoolSize (simple_PoolInit cs ps sz))"
    if "block_ok (simple_PoolInit cs ps sz)"
      and "p \<in> set (fst (mem_PoolState_t.more (simple_PoolInit cs ps sz)))" for p
    using simple_chunk_range[OF that] by (simp add: simple_PoolInit_fields)
  ultimately show ?thesis by (simp add: simple_laid_def simple_PoolInit_fields(4))
qed

lemma simple_laid_init_contract: "init_contract simple_env simple_laid simple_used"
  using simple_init_contract simple_laid_init
  by (simp add: init_contract_def simple_env_sel)

lemma simple_laid_link_contract: "link_contract simple_laid simple_used"
  using simple_link_contract
  by (simp add: link_contract_def simple_laid_def block_ok_def)

lemma simple_laid_alloc_contract: "alloc_contract simple_env simple_laid simple_used"
  unfolding alloc_contract_def
proof (intro allI impI)
  fix r :: "(32, chunk_lists) pool" and p r'
  assume inv: "simple_laid r" and A: "mem_PoolAllocChunk simple_env r = (p, r')"
  from inv have pi: "simple_pinv r" by (simp add: simple_laid_def)
  from simple_alloc_contract pi A
  have old: "simple_pinv r' \<and> same_pool r r' \<and>
        (m_FreeChunksNumber r = 0 \<longrightarrow> p = 0 \<and> simple_used r' = simple_used r) \<and>
        (m_FreeChunksNumber r \<noteq> 0 \<longrightarrow>
           p \<noteq> 0 \<and> p \<notin> simple_used r \<and> simple_used r' = insert p (simple_used r) \<and>
           m_FreeChunksNumber r' = m_FreeChunksNumber r - 1)"
    unfolding alloc_contract_def by blast
  obtain fs us where m: "mem_PoolState_t.more r = (fs, us)" by (cases "mem_PoolState_t.more r")
  have st: "set (fst (mem_PoolState_t.more r') @ snd (mem_PoolState_t.more r')) = set (fs @ us)"
    using A m by (cases fs) (auto simp: simple_env_sel simple_PoolAllocChunk_def)
  from old have sb: "same_block r r'" by (simp add: same_pool_block)
  then have f: "m_pChunks r' = m_pChunks r" "m_pPoolStart r' = m_pPoolStart r"
    "m_PoolSize r' = m_PoolSize r" by (simp_all add: same_block_def)
  from inv m have "simple_laid r'"
    unfolding simple_laid_def st f block_ok_same[OF sb] using old by simp
  with old show "simple_laid r' \<and> same_pool r r' \<and>
        (m_FreeChunksNumber r = 0 \<longrightarrow> p = 0 \<and> simple_used r' = simple_used r) \<and>
        (m_FreeChunksNumber r \<noteq> 0 \<longrightarrow>
           p \<noteq> 0 \<and> p \<notin> simple_used r \<and> simple_used r' = insert p (simple_used r) \<and>
           m_FreeChunksNumber r' = m_FreeChunksNumber r - 1)" by simp
qed

lemma simple_laid_free_contract: "free_contract simple_env simple_laid simple_used"
  unfolding free_contract_def
proof (intro allI impI)
  fix r :: "(32, chunk_lists) pool" and p
  assume inv: "simple_laid r" and p: "p \<in> simple_used r"
  let ?r' = "mem_PoolFreeChunk simple_env r p"
  from inv have pi: "simple_pinv r" by (simp add: simple_laid_def)
  from simple_free_contract pi p
  have old: "unat (m_FreeChunksNumber r) < unat (m_ChunksNumber r) \<and>
        simple_pinv ?r' \<and> same_pool r ?r' \<and>
        simple_used ?r' = simple_used r - {p} \<and>
        m_FreeChunksNumber ?r' = m_FreeChunksNumber r + 1"
    unfolding free_contract_def by blast
  obtain fs us where m: "mem_PoolState_t.more r = (fs, us)" by (cases "mem_PoolState_t.more r")
  from p m have pu: "p \<in> set us" by (simp add: simple_used_def)
  have st: "set (fst (mem_PoolState_t.more ?r') @ snd (mem_PoolState_t.more ?r')) = set (fs @ us)"
    using m pu by (auto simp: simple_env_sel simple_PoolFreeChunk_def)
  from old have sb: "same_block r ?r'" by (simp add: same_pool_block)
  then have f: "m_pChunks ?r' = m_pChunks r" "m_pPoolStart ?r' = m_pPoolStart r"
    "m_PoolSize ?r' = m_PoolSize r" by (simp_all add: same_block_def)
  from inv m have "simple_laid ?r'"
    unfolding simple_laid_def st f block_ok_same[OF sb] using old by simp
  with old show "unat (m_FreeChunksNumber r) < unat (m_ChunksNumber r) \<and>
        simple_laid ?r' \<and> same_pool r ?r' \<and>
        simple_used ?r' = simple_used r - {p} \<and>
        m_FreeChunksNumber ?r' = m_FreeChunksNumber r + 1" by simp
qed

lemma simple_laid_contract: "pool_contract simple_env simple_laid simple_used"
  by (simp add: pool_contract_def simple_laid_init_contract simple_laid_link_contract
      simple_laid_alloc_contract simple_laid_free_contract)

lemma simple_layout_contract: "layout_contract simple_env simple_laid simple_used"
  unfolding layout_contract_def
proof (rule conjI)
  show "\<forall>c cs h t blk h'.
        mem_GetChunkSize simple_env c = Inr cs \<longrightarrow>
        mem_HeapAllocBlock simple_env h
          (mem_HeapRecommendAllocationSize simple_env (8 * cs + sizeof_mword_t simple_env)) t
          = (blk, h') \<longrightarrow>
        blk \<noteq> 0 \<longrightarrow>
        block_ok (mem_PoolInit simple_env cs blk
                    (mem_HeapRecommendAllocationSize simple_env (8 * cs + sizeof_mword_t simple_env)))"
  proof (intro allI impI)
    fix c cs t blk and h h' :: heap_area
    assume cs: "mem_GetChunkSize simple_env c = Inr cs"
      and A: "mem_HeapAllocBlock simple_env h
          (mem_HeapRecommendAllocationSize simple_env (8 * cs + sizeof_mword_t simple_env)) t
          = (blk, h')"
      and blk: "blk \<noteq> 0"
    let ?sz = "8 * cs + 4"
    from simple_class_cases[OF cs] have ge: "4 \<le> unat ?sz" by auto
    obtain brk lim where h: "h = (brk, lim)" by (cases h)
    have lim: "unat lim < 2 ^ 32" using unsigned_less[of lim, where 'a = nat] by simp
    from A blk h have "unat blk + unat ?sz \<le> unat lim"
      by (auto simp: simple_env_sel simple_HeapAllocBlock_def split: if_splits)
    with lim have "unat blk + unat ?sz < 2 ^ 32" by simp
    from simple_block_ok[OF ge this]
    show "block_ok (mem_PoolInit simple_env cs blk
                    (mem_HeapRecommendAllocationSize simple_env (8 * cs + sizeof_mword_t simple_env)))"
      by (simp add: simple_env_sel)
  qed
  show "\<forall>r p. simple_laid r \<longrightarrow> block_ok r \<longrightarrow> p \<in> simple_used r \<longrightarrow>
        unat (m_pChunks r) \<le> unat p \<and> unat p < unat (m_pPoolStart r) + unat (m_PoolSize r)"
    by (auto simp: simple_laid_def simple_used_def)
qed

text \<open>
  C8 (round trip on the aggregate counter). In a reachable state, for collaborators
  that meet the contracts of the single pool, of its layout and of the heap, let
  \<^verbatim>\<open>mem_PoolsAlloc\<close> for the size class \<open>c\<close> return a chunk \<open>p\<close>, not \<^verbatim>\<open>NULL\<close>. Then
  \<^verbatim>\<open>mem_PoolsFree\<close> for \<open>c\<close> and \<open>p\<close>, called at once, returns, and
  \<^verbatim>\<open>mem_FreeChunksNumber[c]\<close> is again what it was before the allocation: also when the
  allocation grew the chain by a pool and the release gave that pool back. The search
  of \<^verbatim>\<open>mem_PoolsFree\<close> arrives at the pool the chunk was taken from, because the blocks of
  the pools share no byte and a chunk lies inside the block of its pool
  (\<open>owner_found\<close>).
\<close>

theorem alloc_free_round_trip:
  fixes s :: "('a :: len, 'z, 'h) mem_state"
  assumes "pool_contract E pinv used" and "layout_contract E pinv used"
    and "heap_contract E inside" and "reachable E used s"
    and "mem_PoolsAlloc E c s = Some (Inr (p, s'))" and "p \<noteq> 0"
  shows "\<exists>s''. mem_PoolsFree E c p s' = Some (Inr s'') \<and>
           mem_FreeChunksNumber s'' (unat c) = mem_FreeChunksNumber s (unat c)"
proof -
  note P = reachable_pools_inv[OF assms(1,4)]
  from assms(5) obtain a where A: "alloc_from E c s = Some (Inr (a, p, s'))"
    by (rule mem_PoolsAlloc_SomeD)
  from alloc_from_blocks[OF assms(1,2,3) P A reachable_blocks_inv[OF assms(1,2,3,4)]]
  have I': "blocks_inv E inside s'" .
  from assms(1) P A assms(6) obtain as r' where c: "unat c < MEM_POOL_CHUNK_TYPE__COUNT E"
    and sg: "seg (pool_mem s') (mem_Pools s' (unat c)) as 0" and a: "a \<in> set as"
    and r': "pool_mem s' a = Some r'" and pr: "pinv r'" and pu: "p \<in> used r'"
    by (rule alloc_from_owner)
  from owner_found[OF assms(2) I' c sg a r' pr pu] obtain q where
    "free_find (pool_mem s') p (mem_Pools s' (unat c)) 0 = Some (Inr (a, q))" by blast
  from round_trip_from[OF assms(1) P A assms(6) this] show ?thesis .
qed

theorem alloc_free_round_trip_witness:
  "pool_contract simple_env simple_laid simple_used \<and>
   layout_contract simple_env simple_laid simple_used \<and>
   heap_contract simple_env simple_inside \<and>
   reachable simple_env simple_used after_alloc \<and>
   mem_PoolsAlloc simple_env 0 after_alloc = Some (Inr (0x108C, after_second)) \<and>
   (0x108C :: 32 word) \<noteq> 0 \<and>
   mem_PoolsFree simple_env 0 0x108C after_second = Some (Inr after_alloc) \<and>
   mem_FreeChunksNumber after_alloc 0 = 7 \<and> mem_FreeChunksNumber after_second 0 = 6 \<and>
   reachable simple_env simple_used after_init \<and>
   mem_PoolsAlloc simple_env 0 after_init = Some (Inr (0x1088, after_alloc)) \<and>
   (0x1088 :: 32 word) \<noteq> 0 \<and>
   mem_PoolsFree simple_env 0 0x1088 after_alloc = Some (Inr after_free) \<and>
   mem_FreeChunksNumber after_init 0 = 0 \<and> mem_FreeChunksNumber after_free 0 = 0 \<and>
   (\<exists>s''. mem_PoolsFree simple_env 0 0x108C after_second = Some (Inr s'') \<and>
          mem_FreeChunksNumber s'' (unat (0 :: 32 word)) =
            mem_FreeChunksNumber after_alloc (unat (0 :: 32 word))) \<and>
   (\<exists>s''. mem_PoolsFree simple_env 0 0x1088 after_alloc = Some (Inr s'') \<and>
          mem_FreeChunksNumber s'' (unat (0 :: 32 word)) =
            mem_FreeChunksNumber after_init (unat (0 :: 32 word)))"
proof -
  have R0: "reachable simple_env simple_used after_init" by (rule reach_init[OF init_run])
  have R1: "reachable simple_env simple_used after_alloc" by (rule reach_alloc[OF R0 alloc_run])
  have e: "mem_FreeChunksNumber after_alloc 0 = 7" "mem_FreeChunksNumber after_second 0 = 6"
    "mem_FreeChunksNumber after_init 0 = 0" "mem_FreeChunksNumber after_free 0 = 0"
    by (simp_all add: after_alloc_def after_second_def after_init_def after_free_def)
  have n: "(0x108C :: 32 word) \<noteq> 0" "(0x1088 :: 32 word) \<noteq> 0" by simp_all
  note t1 = alloc_free_round_trip[OF simple_laid_contract simple_layout_contract
      simple_heap_contract R1 second_run n(1)]
  note t0 = alloc_free_round_trip[OF simple_laid_contract simple_layout_contract
      simple_heap_contract R0 alloc_run n(2)]
  from t1 t0 simple_laid_contract simple_layout_contract simple_heap_contract R0 R1
    second_run alloc_run unfree_run free_run e n
  show ?thesis by simp
qed


end
